theory Spec2Isabelle
  imports Complex_Main "HOL-Library.Sublist" "HOL-Library.Multiset"
begin

section \<open>Data model (src/types/quiz.ts)\<close>

text \<open>
  A JavaScript string is a sequence of UTF-16 code units, and \<open>===\<close> on strings is
  equality of these sequences. A code unit is modelled by its number; \<open>js\<close> turns an
  ASCII literal into the string it denotes.
\<close>

type_synonym jschar = nat
type_synonym jsstring = "jschar list"

definition js :: "string \<Rightarrow> jsstring" where
  "js s = map of_char s"

record QuizQuestion =
  category :: jsstring
  type :: jsstring
  difficulty :: jsstring
  question :: jsstring
  correct_answer :: jsstring
  incorrect_answers :: "jsstring list"

text \<open>The optional field \<open>user_answer?: string\<close> is \<open>None\<close> when it is \<open>undefined\<close>.\<close>

record ProcessedQuestion =
  id :: nat
  category :: jsstring
  type :: jsstring
  difficulty :: jsstring
  question :: jsstring
  correct_answer :: jsstring
  options :: "jsstring list"
  user_answer :: "jsstring option"
  is_answered :: bool
  is_visited :: bool

text \<open>Dates are clock readings (milliseconds); \<open>time_remaining\<close> is a number of seconds.\<close>

record QuizSession =
  user_email :: jsstring
  start_time :: nat
  end_time :: "nat option"
  questions :: "ProcessedQuestion list"
  current_question_index :: nat
  time_remaining :: int
  is_completed :: bool
  score :: "int option"
  total_questions :: nat

record QuestionResult =
  question_id :: nat
  question :: jsstring
  user_answer :: jsstring
  correct_answer :: jsstring
  is_correct :: bool
  category :: jsstring
  difficulty :: jsstring

record QuizResults =
  user_email :: jsstring
  score :: int
  total_questions :: nat
  correct_answers :: nat
  incorrect_answers :: nat
  unanswered_questions :: nat
  time_taken :: int
  completion_date :: nat
  question_results :: "QuestionResult list"

section \<open>Entity decoding (decodeHtmlEntities, src/utils/api.ts)\<close>

text \<open>
  \<open>text.replace(/pat/g, rep)\<close> for a literal, non-empty pattern and a replacement without
  \<open>$\<close>: the string is scanned from the left, every match is replaced and the scan
  resumes behind the match, so matches do not overlap and replaced text is not scanned again
  by the same call.
\<close>

function replace_global :: "jsstring \<Rightarrow> jsstring \<Rightarrow> jsstring \<Rightarrow> jsstring" where
  "replace_global pat rep [] = []"
| "replace_global pat rep (c # cs) =
     (if pat \<noteq> [] \<and> prefix pat (c # cs)
      then rep @ replace_global pat rep (drop (length pat) (c # cs))
      else c # replace_global pat rep cs)"
  by pat_completeness auto
termination
  by (relation "measure (\<lambda>(pat, rep, s). length s)") auto

text \<open>
  The replacements of the source, in the order of the chained calls. The characters that
  are not ASCII are given by their code units: copyright sign U+00A9, registered sign
  U+00AE, trade mark sign U+2122, em dash U+2014, en dash U+2013; 34 is the double quote
  and 39 the apostrophe.
\<close>

definition later_entities :: "(jsstring \<times> jsstring) list" where
  "later_entities =
    [(js ''&lt;'', js ''<''),
     (js ''&gt;'', js ''>''),
     (js ''&quot;'', [34]),
     (js ''&#039;'', [39]),
     (js ''&apos;'', [39]),
     (js ''&nbsp;'', js '' ''),
     (js ''&copy;'', [0xA9]),
     (js ''&reg;'', [0xAE]),
     (js ''&trade;'', [0x2122]),
     (js ''&hellip;'', js ''...''),
     (js ''&mdash;'', [0x2014]),
     (js ''&ndash;'', [0x2013]),
     (js ''&lsquo;'', [39]),
     (js ''&rsquo;'', [39]),
     (js ''&ldquo;'', [34]),
     (js ''&rdquo;'', [34])]"

definition entities :: "(jsstring \<times> jsstring) list" where
  "entities = (js ''&amp;'', js ''&'') # later_entities"

definition replace_chain :: "(jsstring \<times> jsstring) list \<Rightarrow> jsstring \<Rightarrow> jsstring" where
  "replace_chain tbl text = foldl (\<lambda>s (pat, rep). replace_global pat rep s) text tbl"

definition decodeHtmlEntities :: "jsstring \<Rightarrow> jsstring" where
  "decodeHtmlEntities text = replace_chain entities text"

section \<open>Option shuffling (shuffleArray)\<close>

text \<open>
  The ambient random source: \<open>Math.random()\<close> returns a number \<open>r\<close> with \<open>0 \<le> r < 1\<close>,
  a fresh one at every call. The source uses it only in
  \<open>Math.floor(Math.random() * (i + 1))\<close>, so the random source is modelled by the function
  \<open>rand\<close>, where \<open>rand k n\<close> is the value of \<open>Math.floor(r * n)\<close> for the number \<open>r\<close> that
  the \<open>k\<close>-th call of \<open>Math.random\<close> returns, and the count \<open>k\<close> of the calls made so far
  is passed along. What \<open>Math.random\<close> guarantees is \<open>random_source\<close>.
\<close>

definition random_source :: "(nat \<Rightarrow> nat \<Rightarrow> nat) \<Rightarrow> bool" where
  "random_source rand \<longleftrightarrow> (\<forall>k n. 0 < n \<longrightarrow> rand k n < n)"

text \<open>\<open>[shuffled[i], shuffled[j]] = [shuffled[j], shuffled[i]]\<close>\<close>

definition swap :: "nat \<Rightarrow> nat \<Rightarrow> 'a list \<Rightarrow> 'a list" where
  "swap i j shuffled = shuffled[i := shuffled ! j, j := shuffled ! i]"

text \<open>
  The loop \<open>for (let i = shuffled.length - 1; i > 0; i--)\<close>; the third argument is \<open>i\<close>.
\<close>

fun shuffle_loop :: "(nat \<Rightarrow> nat \<Rightarrow> nat) \<Rightarrow> nat \<Rightarrow> nat \<Rightarrow> 'a list \<Rightarrow> 'a list \<times> nat" where
  "shuffle_loop rand k 0 shuffled = (shuffled, k)"
| "shuffle_loop rand k (Suc i) shuffled =
     (let j = rand k (Suc i + 1)
      in shuffle_loop rand (k + 1) i (swap (Suc i) j shuffled))"

text \<open>For the empty array the loop starts at \<open>-1\<close> and does not run, as from \<open>0\<close>.\<close>

definition shuffleArray :: "(nat \<Rightarrow> nat \<Rightarrow> nat) \<Rightarrow> nat \<Rightarrow> 'a list \<Rightarrow> 'a list \<times> nat" where
  "shuffleArray rand k array = shuffle_loop rand k (length array - 1) array"

section \<open>Question processing (processQuizQuestions)\<close>

text \<open>The callback of \<open>questions.map\<close>, for the question at position \<open>index\<close>.\<close>

definition process_question ::
  "(nat \<Rightarrow> nat \<Rightarrow> nat) \<Rightarrow> nat \<Rightarrow> nat \<Rightarrow> QuizQuestion \<Rightarrow> ProcessedQuestion \<times> nat" where
  "process_question rand k index q =
     (let decodedQuestion = decodeHtmlEntities (QuizQuestion.question q);
          decodedCorrectAnswer = decodeHtmlEntities (QuizQuestion.correct_answer q);
          decodedIncorrectAnswers = map decodeHtmlEntities (QuizQuestion.incorrect_answers q);
          options = decodedCorrectAnswer # decodedIncorrectAnswers;
          (shuffledOptions, k') = shuffleArray rand k options
      in (\<lparr> ProcessedQuestion.id = index + 1,
             ProcessedQuestion.category = decodeHtmlEntities (QuizQuestion.category q),
             ProcessedQuestion.type = QuizQuestion.type q,
             ProcessedQuestion.difficulty = QuizQuestion.difficulty q,
             ProcessedQuestion.question = decodedQuestion,
             ProcessedQuestion.correct_answer = decodedCorrectAnswer,
             ProcessedQuestion.options = shuffledOptions,
             ProcessedQuestion.user_answer = None,
             ProcessedQuestion.is_answered = False,
             ProcessedQuestion.is_visited = False \<rparr>, k'))"

text \<open>\<open>Array.prototype.map\<close> calls the callback on the elements from left to right.\<close>

fun map_questions ::
  "(nat \<Rightarrow> nat \<Rightarrow> nat) \<Rightarrow> nat \<Rightarrow> nat \<Rightarrow> QuizQuestion list \<Rightarrow> ProcessedQuestion list \<times> nat" where
  "map_questions rand k index [] = ([], k)"
| "map_questions rand k index (q # qs) =
     (let (p, k') = process_question rand k index q;
          (ps, k'') = map_questions rand k' (index + 1) qs
      in (p # ps, k''))"

definition processQuizQuestions ::
  "(nat \<Rightarrow> nat \<Rightarrow> nat) \<Rightarrow> nat \<Rightarrow> QuizQuestion list \<Rightarrow> ProcessedQuestion list \<times> nat" where
  "processQuizQuestions rand k qs = map_questions rand k 0 qs"

section \<open>Numbers: the binary64 arithmetic of \<open>calculateScore\<close>\<close>

text \<open>
  JavaScript numbers are IEEE 754 binary64 values, and \<open>/\<close> and \<open>*\<close> return the binary64
  value nearest to the exact result, ties going to the even significand. A positive
  binary64 value in the normal range is \<open>m * 2 ^ e\<close> with \<open>2 ^ 52 \<le> m < 2 ^ 53\<close>; it is
  modelled by the pair \<open>(m, e)\<close>, and zero by \<open>(0, 0)\<close>. The operands here are array lengths
  (below \<open>2 ^ 32\<close>, so exactly representable) and the results lie between \<open>2 ^ - 32\<close> and
  \<open>100\<close>, so neither the subnormal range nor overflow occurs and the exponent range is not
  modelled.
\<close>

type_synonym binary64 = "nat \<times> int"

text \<open>The number of binary digits of \<open>n\<close>.\<close>

fun bitlen :: "nat \<Rightarrow> nat" where
  "bitlen n = (if n = 0 then 0 else Suc (bitlen (n div 2)))"

declare bitlen.simps [simp del]

text \<open>The fraction \<open>n / d\<close> times \<open>2 ^ s\<close>, as a fraction.\<close>

definition scale2 :: "nat \<Rightarrow> nat \<Rightarrow> int \<Rightarrow> nat \<times> nat" where
  "scale2 n d s = (if 0 \<le> s then (n * 2 ^ nat s, d) else (n, d * 2 ^ nat (- s)))"

text \<open>The integer nearest to \<open>n / d\<close>, ties going to the even one.\<close>

definition round_half_even :: "nat \<Rightarrow> nat \<Rightarrow> nat" where
  "round_half_even n d =
     (let q = n div d; r = n mod d
      in if 2 * r < d then q
         else if d < 2 * r then q + 1
         else if even q then q else q + 1)"

text \<open>
  The binary exponent \<open>\<lfloor>log\<^sub>2 (n / d)\<rfloor>\<close> of a positive fraction: it is the difference of
  the bit lengths, or one less.
\<close>

definition exponent2 :: "nat \<Rightarrow> nat \<Rightarrow> int" where
  "exponent2 n d =
     (let k0 = int (bitlen n) - int (bitlen d);
          (n', d') = scale2 n d (- k0)
      in if d' \<le> n' then k0 else k0 - 1)"

text \<open>
  Rounding the exact value \<open>n / d\<close> to binary64: scaled by \<open>2 ^ (52 - k)\<close>, where \<open>k\<close> is the
  binary exponent, the value lies between \<open>2 ^ 52\<close> and \<open>2 ^ 53\<close> and is rounded to an
  integer significand. (When the significand rounds up to \<open>2 ^ 53\<close> the pair denotes the
  same value as \<open>(2 ^ 52, e + 1)\<close>.)
\<close>

definition to_binary64 :: "nat \<Rightarrow> nat \<Rightarrow> binary64" where
  "to_binary64 n d =
     (if n = 0 then (0, 0)
      else let k = exponent2 n d;
               (n', d') = scale2 n d (52 - k)
           in (round_half_even n' d', k - 52))"

text \<open>\<open>a / b\<close> for two array lengths, \<open>b\<close> not zero.\<close>

definition fdiv :: "nat \<Rightarrow> nat \<Rightarrow> binary64" where
  "fdiv a b = to_binary64 a b"

text \<open>\<open>x * c\<close> for a binary64 value \<open>x\<close> and a small integer constant \<open>c\<close>.\<close>

definition fmul :: "binary64 \<Rightarrow> nat \<Rightarrow> binary64" where
  "fmul x c = (case x of (m, e) \<Rightarrow> (let (n, d) = scale2 (m * c) 1 e in to_binary64 n d))"

text \<open>
  \<open>Math.round(x)\<close> is the integer \<open>\<lfloor>x + 1/2\<rfloor>\<close>, computed exactly: ties go upwards.
\<close>

definition Math_round :: "binary64 \<Rightarrow> nat" where
  "Math_round x = (case x of (m, e) \<Rightarrow> (let (n, d) = scale2 m 1 e in (2 * n + d) div (2 * d)))"

text \<open>The real number that a pair denotes.\<close>

definition value_of :: "binary64 \<Rightarrow> real" where
  "value_of x = (case x of (m, e) \<Rightarrow> real m * 2 powr real_of_int e)"

section \<open>Scoring (calculateScore, createQuizResults)\<close>

definition calculateScore :: "ProcessedQuestion list \<Rightarrow> int" where
  "calculateScore qs =
     (let answeredQuestions = filter ProcessedQuestion.is_answered qs;
          correctAnswers =
            filter (\<lambda>q. ProcessedQuestion.user_answer q = Some (ProcessedQuestion.correct_answer q))
              answeredQuestions
      in if length answeredQuestions = 0 then 0
         else int (Math_round (fmul (fdiv (length correctAnswers) (length answeredQuestions)) 100)))"

definition Not_answered :: jsstring where
  "Not_answered = js ''Not answered''"

text \<open>
  \<open>q.user_answer || 'Not answered'\<close>: the right operand is taken when the left one is falsy,
  which \<open>undefined\<close> and the empty string are.
\<close>

definition or_Not_answered :: "jsstring option \<Rightarrow> jsstring" where
  "or_Not_answered a = (case a of None \<Rightarrow> Not_answered | Some s \<Rightarrow> if s = [] then Not_answered else s)"

definition question_result :: "ProcessedQuestion \<Rightarrow> QuestionResult" where
  "question_result q =
     \<lparr> QuestionResult.question_id = ProcessedQuestion.id q,
       QuestionResult.question = ProcessedQuestion.question q,
       QuestionResult.user_answer = or_Not_answered (ProcessedQuestion.user_answer q),
       QuestionResult.correct_answer = ProcessedQuestion.correct_answer q,
       QuestionResult.is_correct =
         (ProcessedQuestion.user_answer q = Some (ProcessedQuestion.correct_answer q)),
       QuestionResult.category = ProcessedQuestion.category q,
       QuestionResult.difficulty = ProcessedQuestion.difficulty q \<rparr>"

text \<open>
  \<open>session.time_remaining ? (30 * 60 - session.time_remaining) : 0\<close>: the number \<open>0\<close> is
  falsy. The second argument is the clock reading that \<open>new Date()\<close> returns.
\<close>

definition createQuizResults :: "QuizSession \<Rightarrow> nat \<Rightarrow> QuizResults" where
  "createQuizResults session now =
     (let questionResults = map question_result (QuizSession.questions session);
          correctAnswers = length (filter QuestionResult.is_correct questionResults);
          incorrectAnswers =
            length (filter (\<lambda>r. \<not> QuestionResult.is_correct r
                                \<and> QuestionResult.user_answer r \<noteq> Not_answered) questionResults);
          unansweredQuestions =
            length (filter (\<lambda>r. QuestionResult.user_answer r = Not_answered) questionResults)
      in \<lparr> QuizResults.user_email = QuizSession.user_email session,
           QuizResults.score = calculateScore (QuizSession.questions session),
           QuizResults.total_questions = QuizSession.total_questions session,
           QuizResults.correct_answers = correctAnswers,
           QuizResults.incorrect_answers = incorrectAnswers,
           QuizResults.unanswered_questions = unansweredQuestions,
           QuizResults.time_taken =
             (if QuizSession.time_remaining session \<noteq> 0
              then 30 * 60 - QuizSession.time_remaining session else 0),
           QuizResults.completion_date = now,
           QuizResults.question_results = questionResults \<rparr>)"

text \<open>
  \<open>handleFinishQuiz\<close> (src/app/page.tsx) submits the session with the remaining time of the
  countdown; \<open>endTime\<close> and \<open>now\<close> are the readings of its two \<open>new Date()\<close>.
\<close>

definition handleFinishQuiz :: "QuizSession \<Rightarrow> int \<Rightarrow> nat \<Rightarrow> nat \<Rightarrow> QuizResults" where
  "handleFinishQuiz session timeRemaining endTime now =
     createQuizResults
       (session\<lparr> QuizSession.time_remaining := timeRemaining,
                 QuizSession.end_time := Some endTime,
                 QuizSession.is_completed := True \<rparr>) now"

section \<open>Example inputs\<close>

text \<open>The random source whose every \<open>Math.random()\<close> returns \<open>0\<close>.\<close>

definition rand_zero :: "nat \<Rightarrow> nat \<Rightarrow> nat" where
  "rand_zero k n = 0"

text \<open>A raw question that lists its correct answer among the incorrect ones as well.\<close>

definition repeated_answer_question :: QuizQuestion where
  "repeated_answer_question =
     \<lparr> QuizQuestion.category = js ''Music'',
       QuizQuestion.type = js ''multiple'',
       QuizQuestion.difficulty = js ''easy'',
       QuizQuestion.question = js ''Which genre?'',
       QuizQuestion.correct_answer = js ''R&amp;B'',
       QuizQuestion.incorrect_answers = [js ''R&B'', js ''Jazz'', js ''Folk''] \<rparr>"

text \<open>
  A question whose correct answer is the text \<open>Not answered\<close>, selected by the user, and a
  question that was left open; the session holding the first one.
\<close>

definition sentinel_question :: ProcessedQuestion where
  "sentinel_question =
     \<lparr> ProcessedQuestion.id = 1,
       ProcessedQuestion.category = js ''Quiz'',
       ProcessedQuestion.type = js ''multiple'',
       ProcessedQuestion.difficulty = js ''easy'',
       ProcessedQuestion.question = js ''What is shown for a skipped question?'',
       ProcessedQuestion.correct_answer = js ''Not answered'',
       ProcessedQuestion.options = [js ''Skipped'', js ''Not answered'', js ''Blank'', js ''None''],
       ProcessedQuestion.user_answer = Some (js ''Not answered''),
       ProcessedQuestion.is_answered = True,
       ProcessedQuestion.is_visited = True \<rparr>"

definition open_question :: ProcessedQuestion where
  "open_question =
     \<lparr> ProcessedQuestion.id = 2,
       ProcessedQuestion.category = js ''Quiz'',
       ProcessedQuestion.type = js ''multiple'',
       ProcessedQuestion.difficulty = js ''easy'',
       ProcessedQuestion.question = js ''Which one?'',
       ProcessedQuestion.correct_answer = js ''A'',
       ProcessedQuestion.options = [js ''B'', js ''A'', js ''C'', js ''D''],
       ProcessedQuestion.user_answer = None,
       ProcessedQuestion.is_answered = False,
       ProcessedQuestion.is_visited = False \<rparr>"

definition session_of :: "ProcessedQuestion list \<Rightarrow> QuizSession" where
  "session_of qs =
     \<lparr> QuizSession.user_email = js ''a@b.co'',
       QuizSession.start_time = 0,
       QuizSession.end_time = None,
       QuizSession.questions = qs,
       QuizSession.current_question_index = 0,
       QuizSession.time_remaining = 600,
       QuizSession.is_completed = False,
       QuizSession.score = None,
       QuizSession.total_questions = length qs \<rparr>"

text \<open>Forty answered questions, twenty-three of them answered correctly.\<close>

definition answered_with :: "jsstring \<Rightarrow> ProcessedQuestion" where
  "answered_with a =
     \<lparr> ProcessedQuestion.id = 1,
       ProcessedQuestion.category = js ''Quiz'',
       ProcessedQuestion.type = js ''multiple'',
       ProcessedQuestion.difficulty = js ''easy'',
       ProcessedQuestion.question = js ''Which one?'',
       ProcessedQuestion.correct_answer = js ''A'',
       ProcessedQuestion.options = [js ''B'', js ''A'', js ''C'', js ''D''],
       ProcessedQuestion.user_answer = Some a,
       ProcessedQuestion.is_answered = True,
       ProcessedQuestion.is_visited = True \<rparr>"

definition forty_answered :: "ProcessedQuestion list" where
  "forty_answered = replicate 23 (answered_with (js ''A'')) @ replicate 17 (answered_with (js ''B''))"

section \<open>The percentage as the specification words it\<close>

text \<open>
  \<open>round(100 * correct / answered)\<close> in exact arithmetic, for the two roundings that the
  specification admits: ties upwards, which is \<open>\<lfloor>100 * c / a + 1/2\<rfloor>\<close>, and ties to even.
\<close>

definition percent_half_up :: "nat \<Rightarrow> nat \<Rightarrow> int" where
  "percent_half_up c a = int ((2 * (100 * c) + a) div (2 * a))"

definition percent_half_even :: "nat \<Rightarrow> nat \<Rightarrow> int" where
  "percent_half_even c a = int (round_half_even (100 * c) a)"

section \<open>Decoding in a single pass\<close>

text \<open>
  The decoder as the specification words it: the text is read once from the left, every
  occurrence of an entity of the table is replaced by its characters, and everything else is
  left unchanged. \<open>first_match\<close> finds the entity that the text starts with.
\<close>

fun first_match :: "(jsstring \<times> jsstring) list \<Rightarrow> jsstring \<Rightarrow> (jsstring \<times> jsstring) option" where
  "first_match [] s = None"
| "first_match ((pat, rep) # tbl) s =
     (if pat \<noteq> [] \<and> prefix pat s then Some (pat, rep) else first_match tbl s)"

function single_pass :: "(jsstring \<times> jsstring) list \<Rightarrow> jsstring \<Rightarrow> jsstring" where
  "single_pass tbl [] = []"
| "single_pass tbl (c # cs) =
     (case first_match tbl (c # cs) of
        Some (pat, rep) \<Rightarrow> rep @ single_pass tbl (drop (length pat - 1) cs)
      | None \<Rightarrow> c # single_pass tbl cs)"
  by pat_completeness auto
termination
  by (relation "measure (\<lambda>(tbl, s). length s)") auto

text \<open>
  What the proofs use of the table of the later entities: every entity is an ampersand
  followed by characters of names (\<open>#\<close>, digits, small letters, \<open>;\<close>), every replacement is
  not empty and has neither an ampersand nor a character of names; and the entities are
  distinct and closed by their only semicolon.
\<close>

definition name_char :: "jschar \<Rightarrow> bool" where
  "name_char c \<longleftrightarrow> c = 35 \<or> (48 \<le> c \<and> c \<le> 57) \<or> c = 59 \<or> (97 \<le> c \<and> c \<le> 122)"

definition good_table :: "(jsstring \<times> jsstring) list \<Rightarrow> bool" where
  "good_table tbl =
     list_all (\<lambda>(pat, rep). pat \<noteq> [] \<and> hd pat = 38 \<and> list_all name_char (tl pat)
        \<and> rep \<noteq> [] \<and> list_all (\<lambda>c. c \<noteq> 38 \<and> \<not> name_char c) rep) tbl"

definition closed_names :: "(jsstring \<times> jsstring) list \<Rightarrow> bool" where
  "closed_names tbl \<longleftrightarrow>
     distinct (map fst tbl)
     \<and> list_all (\<lambda>(pat, rep). pat \<noteq> [] \<and> last pat = 59 \<and> 59 \<notin> set (butlast pat)) tbl"

section \<open>Email validation (validateEmail)\<close>

text \<open>
  The class \<open>\s\<close> of a regular expression: the code units of WhiteSpace and
  LineTerminator.
\<close>

definition is_space :: "jschar \<Rightarrow> bool" where
  "is_space c \<longleftrightarrow>
     c = 0x9 \<or> c = 0xA \<or> c = 0xB \<or> c = 0xC \<or> c = 0xD \<or> c = 0x20 \<or> c = 0xA0 \<or> c = 0x1680
     \<or> (0x2000 \<le> c \<and> c \<le> 0x200A)
     \<or> c = 0x2028 \<or> c = 0x2029 \<or> c = 0x202F \<or> c = 0x205F \<or> c = 0x3000 \<or> c = 0xFEFF"

text \<open>
  Regular expressions over code units, with character classes given by their predicate.
  The pattern of the source has no groups to refer back to, no look-around and no flags, and
  it is anchored by \<open>^\<close> and \<open>$\<close>, so \<open>test\<close> returns true exactly when the whole string
  belongs to the language of the pattern; \<open>matches\<close> decides that by taking the derivative of
  the pattern by each code unit in turn.
\<close>

datatype regex =
    Fail
  | Eps
  | Class "jschar \<Rightarrow> bool"
  | Seq regex regex
  | Alt regex regex
  | Star regex

definition Chr :: "jschar \<Rightarrow> regex" where
  "Chr c = Class (\<lambda>x. x = c)"

definition OneOrMore :: "regex \<Rightarrow> regex" where
  "OneOrMore r = Seq r (Star r)"

fun nullable :: "regex \<Rightarrow> bool" where
  "nullable Fail = False"
| "nullable Eps = True"
| "nullable (Class P) = False"
| "nullable (Seq r s) = (nullable r \<and> nullable s)"
| "nullable (Alt r s) = (nullable r \<or> nullable s)"
| "nullable (Star r) = True"

fun deriv :: "jschar \<Rightarrow> regex \<Rightarrow> regex" where
  "deriv c Fail = Fail"
| "deriv c Eps = Fail"
| "deriv c (Class P) = (if P c then Eps else Fail)"
| "deriv c (Seq r s) =
     (if nullable r then Alt (Seq (deriv c r) s) (deriv c s) else Seq (deriv c r) s)"
| "deriv c (Alt r s) = Alt (deriv c r) (deriv c s)"
| "deriv c (Star r) = Seq (deriv c r) (Star r)"

fun matches :: "regex \<Rightarrow> jsstring \<Rightarrow> bool" where
  "matches r [] = nullable r"
| "matches r (c # cs) = matches (deriv c r) cs"

text \<open>\<open>/^[^\s@]+@[^\s@]+\.[^\s@]+$/\<close>; 64 is \<open>@\<close> and 46 is the dot.\<close>

definition not_space_or_at :: "jschar \<Rightarrow> bool" where
  "not_space_or_at c \<longleftrightarrow> \<not> is_space c \<and> c \<noteq> 64"

definition emailRegex :: regex where
  "emailRegex =
     Seq (OneOrMore (Class not_space_or_at))
       (Seq (Chr 64)
         (Seq (OneOrMore (Class not_space_or_at))
           (Seq (Chr 46) (OneOrMore (Class not_space_or_at)))))"

definition validateEmail :: "jsstring \<Rightarrow> bool" where
  "validateEmail email = matches emailRegex email"

text \<open>The language of a regular expression.\<close>

inductive_set star :: "'a list set \<Rightarrow> 'a list set" for A :: "'a list set" where
  star_Nil: "[] \<in> star A"
| star_app: "u \<in> A \<Longrightarrow> v \<in> star A \<Longrightarrow> u @ v \<in> star A"

fun lang :: "regex \<Rightarrow> jsstring set" where
  "lang Fail = {}"
| "lang Eps = {[]}"
| "lang (Class P) = {[c] | c. P c}"
| "lang (Seq r s) = {u @ v | u v. u \<in> lang r \<and> v \<in> lang s}"
| "lang (Alt r s) = lang r \<union> lang s"
| "lang (Star r) = star (lang r)"

section \<open>The draws of a shuffle\<close>

text \<open>
  The loop of \<open>shuffleArray\<close> with the drawn indices given as a list: the values of \<open>j\<close> for
  \<open>i\<close>, \<open>i - 1\<close>, \<dots>, \<open>1\<close>, in this order.
\<close>

fun shuffle_with :: "nat list \<Rightarrow> nat \<Rightarrow> 'a list \<Rightarrow> 'a list" where
  "shuffle_with ds 0 shuffled = shuffled"
| "shuffle_with [] (Suc i) shuffled = shuffled"
| "shuffle_with (j # ds) (Suc i) shuffled = shuffle_with ds i (swap (Suc i) j shuffled)"

text \<open>
  The indices that the loop started at \<open>i\<close> draws from the random source, the first call
  being call \<open>k\<close>: round \<open>m\<close> has the loop variable \<open>i - m\<close>.
\<close>

definition draws :: "(nat \<Rightarrow> nat \<Rightarrow> nat) \<Rightarrow> nat \<Rightarrow> nat \<Rightarrow> nat list" where
  "draws rand k i = map (\<lambda>m. rand (k + m) (i - m + 1)) [0..<i]"

text \<open>
  All lists of draws for the loop started at \<open>i\<close>: an index from \<open>0\<close> to \<open>i\<close>, then one from
  \<open>0\<close> to \<open>i - 1\<close>, and so on. Uniform and independent draws make each of them equally likely.
\<close>

fun all_draws :: "nat \<Rightarrow> nat list list" where
  "all_draws 0 = [[]]"
| "all_draws (Suc i) = concat (map (\<lambda>j. map ((#) j) (all_draws i)) [0..<Suc i + 1])"

section \<open>Question processing: shape of the result\<close>

lemma fst_process_question:
  "fst (process_question rand k index q) =
     \<lparr> ProcessedQuestion.id = index + 1,
       ProcessedQuestion.category = decodeHtmlEntities (QuizQuestion.category q),
       ProcessedQuestion.type = QuizQuestion.type q,
       ProcessedQuestion.difficulty = QuizQuestion.difficulty q,
       ProcessedQuestion.question = decodeHtmlEntities (QuizQuestion.question q),
       ProcessedQuestion.correct_answer = decodeHtmlEntities (QuizQuestion.correct_answer q),
       ProcessedQuestion.options =
         fst (shuffleArray rand k
           (decodeHtmlEntities (QuizQuestion.correct_answer q)
              # map decodeHtmlEntities (QuizQuestion.incorrect_answers q))),
       ProcessedQuestion.user_answer = None,
       ProcessedQuestion.is_answered = False,
       ProcessedQuestion.is_visited = False \<rparr>"
  by (simp add: process_question_def Let_def split: prod.splits)

lemma map_questions_Cons:
  "fst (map_questions rand k index (q # qs)) =
     fst (process_question rand k index q)
       # fst (map_questions rand (snd (process_question rand k index q)) (index + 1) qs)"
  by (simp add: Let_def split: prod.splits)

lemma length_map_questions: "length (fst (map_questions rand k index qs)) = length qs"
  by (induction qs arbitrary: k index)
     (simp_all add: map_questions_Cons del: map_questions.simps(2))

lemma ids_map_questions:
  "map ProcessedQuestion.id (fst (map_questions rand k index qs))
     = [index + 1 ..< index + 1 + length qs]"
proof (induction qs arbitrary: k index)
  case Nil
  show ?case by simp
next
  case (Cons q qs)
  have "[index + 1 ..< index + 1 + length (q # qs)]
      = (index + 1) # [index + 1 + 1 ..< index + 1 + 1 + length qs]"
    by (simp add: upt_rec)
  then show ?case
    using Cons.IH [of "snd (process_question rand k index q)" "index + 1"]
    by (simp add: map_questions_Cons fst_process_question del: map_questions.simps(2))
qed

text \<open>A field that the callback computes from the raw question alone.\<close>

lemma copied_map_questions:
  assumes "\<And>k index q. f (fst (process_question rand k index q)) = g q"
  shows "map f (fst (map_questions rand k index qs)) = map g qs"
  by (induction qs arbitrary: k index)
     (simp_all add: map_questions_Cons assms del: map_questions.simps(2))

text \<open>
  Claim C4. For every sequence of raw questions of length \<open>N\<close>, with any random source,
  \<open>processQuizQuestions\<close> returns \<open>N\<close> processed questions in the order of the input: the
  \<open>id\<close> fields are \<open>1, 2, \<dots>, N\<close>, the \<open>i\<close>-th question, correct answer and category are
  the decoded ones of the \<open>i\<close>-th input, type and difficulty are copied, and every
  \<open>user_answer\<close> is absent, every \<open>is_answered\<close> and \<open>is_visited\<close> false.
\<close>

theorem processQuizQuestions_shape:
  "length (fst (processQuizQuestions rand k qs)) = length qs
   \<and> map ProcessedQuestion.id (fst (processQuizQuestions rand k qs)) = [1 ..< length qs + 1]
   \<and> map ProcessedQuestion.question (fst (processQuizQuestions rand k qs))
       = map (\<lambda>q. decodeHtmlEntities (QuizQuestion.question q)) qs
   \<and> map ProcessedQuestion.correct_answer (fst (processQuizQuestions rand k qs))
       = map (\<lambda>q. decodeHtmlEntities (QuizQuestion.correct_answer q)) qs
   \<and> map ProcessedQuestion.category (fst (processQuizQuestions rand k qs))
       = map (\<lambda>q. decodeHtmlEntities (QuizQuestion.category q)) qs
   \<and> map ProcessedQuestion.type (fst (processQuizQuestions rand k qs)) = map QuizQuestion.type qs
   \<and> map ProcessedQuestion.difficulty (fst (processQuizQuestions rand k qs))
       = map QuizQuestion.difficulty qs
   \<and> map ProcessedQuestion.user_answer (fst (processQuizQuestions rand k qs))
       = replicate (length qs) None
   \<and> map ProcessedQuestion.is_answered (fst (processQuizQuestions rand k qs))
       = replicate (length qs) False
   \<and> map ProcessedQuestion.is_visited (fst (processQuizQuestions rand k qs))
       = replicate (length qs) False"
proof -
  have ids: "map ProcessedQuestion.id (fst (map_questions rand k 0 qs)) = [1 ..< length qs + 1]"
    using ids_map_questions [of rand k 0 qs] by simp
  have const: "map (\<lambda>q. c) qs = replicate (length qs) c" for c :: 'c
    by (simp add: map_replicate_const)
  have ans: "map ProcessedQuestion.is_answered (fst (map_questions rand k 0 qs))
      = replicate (length qs) False"
    using copied_map_questions [of ProcessedQuestion.is_answered rand "\<lambda>q. False" k 0 qs]
    by (simp add: fst_process_question const)
  have vis: "map ProcessedQuestion.is_visited (fst (map_questions rand k 0 qs))
      = replicate (length qs) False"
    using copied_map_questions [of ProcessedQuestion.is_visited rand "\<lambda>q. False" k 0 qs]
    by (simp add: fst_process_question const)
  show ?thesis
    unfolding processQuizQuestions_def
    by (simp add: length_map_questions ids copied_map_questions fst_process_question const ans vis)
qed

section \<open>Results aggregation\<close>

text \<open>
  Claim C9. Two runs of the results aggregation on the same final session, at any two clock
  readings, give results that are equal in every field other than \<open>completion_date\<close>: they
  become equal once that field is set to a common value.
\<close>

theorem createQuizResults_deterministic:
  "(createQuizResults session now)\<lparr> QuizResults.completion_date := d \<rparr>
     = (createQuizResults session now')\<lparr> QuizResults.completion_date := d \<rparr>"
  by (simp add: createQuizResults_def Let_def)

text \<open>
  Claim C6. The time taken is meant to be the budget of 1800 seconds minus the remaining
  time, so 1800 when no time remains. A session submitted with no time remaining gets the
  time taken 0 instead: the remaining time 0 is falsy and selects the other branch of the
  conditional.
\<close>

theorem time_taken_at_zero:
  "QuizResults.time_taken (handleFinishQuiz session 0 endTime now) = 0
   \<and> QuizResults.time_taken (handleFinishQuiz session 0 endTime now) \<noteq> 30 * 60 - 0"
  by (simp add: handleFinishQuiz_def createQuizResults_def Let_def)

section \<open>Options of a processed question\<close>

lemma length_swap [simp]: "length (swap i j xs) = length xs"
  by (simp add: swap_def)

lemma mset_swap_shuffled: "i < length xs \<Longrightarrow> j < length xs \<Longrightarrow> mset (swap i j xs) = mset xs"
  unfolding swap_def by (rule mset_swap)

lemma length_shuffle_loop: "length (fst (shuffle_loop rand k i xs)) = length xs"
  by (induction i arbitrary: k xs) (simp_all add: Let_def)

lemma mset_shuffle_loop:
  "random_source rand \<Longrightarrow> i < length xs \<Longrightarrow> mset (fst (shuffle_loop rand k i xs)) = mset xs"
proof (induction i arbitrary: k xs)
  case 0
  show ?case by simp
next
  case (Suc i)
  have "rand k (Suc i + 1) < Suc i + 1"
    using Suc.prems(1) by (simp add: random_source_def)
  then have j: "rand k (Suc i + 1) < length xs"
    using Suc.prems(2) by simp
  have "mset (fst (shuffle_loop rand (k + 1) i (swap (Suc i) (rand k (Suc i + 1)) xs)))
      = mset (swap (Suc i) (rand k (Suc i + 1)) xs)"
    using Suc.prems by (intro Suc.IH) simp_all
  then show ?case
    using Suc.prems(2) j by (simp add: Let_def mset_swap_shuffled)
qed

lemma mset_shuffleArray:
  "random_source rand \<Longrightarrow> mset (fst (shuffleArray rand k xs)) = mset xs"
  by (cases xs) (simp_all add: shuffleArray_def mset_shuffle_loop)

lemma length_shuffleArray: "length (fst (shuffleArray rand k xs)) = length xs"
  by (simp add: shuffleArray_def length_shuffle_loop)

lemma nth_map_questions:
  "i < length qs \<Longrightarrow>
   \<exists>k'. fst (map_questions rand k index qs) ! i = fst (process_question rand k' (index + i) (qs ! i))"
proof (induction qs arbitrary: k index i)
  case Nil
  then show ?case by simp
next
  case (Cons q qs)
  show ?case
  proof (cases i)
    case 0
    then show ?thesis by (auto simp: map_questions_Cons simp del: map_questions.simps(2))
  next
    case (Suc i')
    then have "i' < length qs" using Cons.prems by simp
    from Cons.IH [OF this, of "snd (process_question rand k index q)" "index + 1"]
    show ?thesis using Suc by (auto simp: map_questions_Cons simp del: map_questions.simps(2))
  qed
qed

text \<open>
  Claim C2, as amended. With a random source as \<open>Math.random\<close> provides it, the \<open>i\<close>-th
  processed question has exactly \<open>1 + (number of incorrect answers)\<close> options, its options
  are a permutation of the decoded correct answer followed by the decoded incorrect answers,
  and the decoded correct answer occurs among the options once more often than among the
  decoded incorrect answers: at least once, and exactly once when no incorrect answer decodes
  to the same string.
\<close>

theorem options_of_processed:
  assumes "random_source rand" and "i < length qs"
  shows "let p = fst (processQuizQuestions rand k qs) ! i; q = qs ! i;
             decodedIncorrectAnswers = map decodeHtmlEntities (QuizQuestion.incorrect_answers q)
         in length (ProcessedQuestion.options p) = 1 + length (QuizQuestion.incorrect_answers q)
          \<and> ProcessedQuestion.correct_answer p = decodeHtmlEntities (QuizQuestion.correct_answer q)
          \<and> mset (ProcessedQuestion.options p)
              = mset (ProcessedQuestion.correct_answer p # decodedIncorrectAnswers)
          \<and> count_list (ProcessedQuestion.options p) (ProcessedQuestion.correct_answer p)
              = 1 + count_list decodedIncorrectAnswers (ProcessedQuestion.correct_answer p)"
proof -
  obtain k' where p: "fst (processQuizQuestions rand k qs) ! i
      = fst (process_question rand k' i (qs ! i))"
    using nth_map_questions [OF assms(2), of rand k 0] by (auto simp: processQuizQuestions_def)
  let ?c = "decodeHtmlEntities (QuizQuestion.correct_answer (qs ! i))"
  let ?ds = "map decodeHtmlEntities (QuizQuestion.incorrect_answers (qs ! i))"
  have m: "mset (fst (shuffleArray rand k' (?c # ?ds))) = mset (?c # ?ds)"
    using assms(1) by (rule mset_shuffleArray)
  have "count_list (fst (shuffleArray rand k' (?c # ?ds))) ?c = count_list (?c # ?ds) ?c"
    using m by (metis count_mset)
  then have c: "count_list (fst (shuffleArray rand k' (?c # ?ds))) ?c = 1 + count_list ?ds ?c"
    by simp
  show ?thesis
    using m c by (simp add: p fst_process_question length_shuffleArray Let_def)
qed


lemmas decode_eval = decodeHtmlEntities_def replace_chain_def entities_def later_entities_def js_def

text \<open>
  Claim C2 as stated fails: a raw question whose correct answer \<open>R&amp;B\<close> is listed once
  more, as \<open>R&B\<close>, among the incorrect answers has the decoded correct answer twice in its
  options.
\<close>

theorem options_repeated_answer:
  "count_list
     (ProcessedQuestion.options (hd (fst (processQuizQuestions rand_zero 0 [repeated_answer_question]))))
     (decodeHtmlEntities (QuizQuestion.correct_answer repeated_answer_question)) = 2"
  by (simp add: processQuizQuestions_def process_question_def repeated_answer_question_def
      shuffleArray_def swap_def rand_zero_def Let_def decode_eval)

text \<open>The theorem for claim C2 at that question and the random source \<open>rand_zero\<close>.\<close>

theorem options_of_processed_witness:
  "random_source rand_zero \<and> 0 < length [repeated_answer_question]
   \<and> length (ProcessedQuestion.options (fst (processQuizQuestions rand_zero 0 [repeated_answer_question]) ! 0)) = 4"
proof -
  have r: "random_source rand_zero" by (simp add: random_source_def rand_zero_def)
  have l: "0 < length [repeated_answer_question]" by simp
  show ?thesis
    using r options_of_processed [OF r l, of 0]
    by (simp add: Let_def repeated_answer_question_def)
qed

section \<open>Counts of the results\<close>

lemma count_four_ways:
  "length (filter (\<lambda>r. \<not> P r \<and> \<not> U r) rs) + length (filter P rs) + length (filter U rs)
     = length rs + length (filter (\<lambda>r. P r \<and> U r) rs)"
  by (induction rs) auto

lemma Not_answered_nonempty: "Not_answered \<noteq> []"
  by (simp add: Not_answered_def js_def)

text \<open>
  Claim C3, as amended. The question results are those of the session's questions, in
  order; \<open>correct_answers\<close> counts the results with \<open>is_correct\<close>; \<open>unanswered_questions\<close>
  counts the results whose recorded answer is the sentinel \<open>Not answered\<close>;
  \<open>incorrect_answers\<close> counts the results that are neither, so the three counts add up to
  the number of results plus the number of results that are both correct and recorded as
  the sentinel, and \<open>incorrect_answers\<close> is the total minus the other two whenever there is
  no such result. A result records the sentinel when no answer is present, and the selected
  string when one is present and not empty; it is correct exactly when the answer is present
  and equal to the correct answer; and it is both correct and recorded as the sentinel only
  when the correct answer of the question is itself the sentinel text or empty.
\<close>

theorem createQuizResults_counts:
  "let r = createQuizResults session now; rs = QuizResults.question_results r
   in rs = map question_result (QuizSession.questions session)
    \<and> QuizResults.correct_answers r = length (filter QuestionResult.is_correct rs)
    \<and> QuizResults.unanswered_questions r
        = length (filter (\<lambda>x. QuestionResult.user_answer x = Not_answered) rs)
    \<and> QuizResults.incorrect_answers r
        = length (filter (\<lambda>x. \<not> QuestionResult.is_correct x
                              \<and> QuestionResult.user_answer x \<noteq> Not_answered) rs)
    \<and> QuizResults.incorrect_answers r + QuizResults.correct_answers r
          + QuizResults.unanswered_questions r
        = length rs
          + length (filter (\<lambda>x. QuestionResult.is_correct x
                                \<and> QuestionResult.user_answer x = Not_answered) rs)
    \<and> (\<forall>q \<in> set (QuizSession.questions session).
          (ProcessedQuestion.user_answer q = None
             \<longrightarrow> QuestionResult.user_answer (question_result q) = Not_answered)
        \<and> (\<forall>a. ProcessedQuestion.user_answer q = Some a \<and> a \<noteq> []
             \<longrightarrow> QuestionResult.user_answer (question_result q) = a)
        \<and> (QuestionResult.is_correct (question_result q)
             \<longleftrightarrow> ProcessedQuestion.user_answer q = Some (ProcessedQuestion.correct_answer q))
        \<and> (QuestionResult.is_correct (question_result q)
              \<and> QuestionResult.user_answer (question_result q) = Not_answered
             \<longrightarrow> ProcessedQuestion.correct_answer q = Not_answered
                 \<or> ProcessedQuestion.correct_answer q = []))"
proof -
  let ?rs = "map question_result (QuizSession.questions session)"
  have four: "length (filter (\<lambda>x. \<not> QuestionResult.is_correct x
                              \<and> QuestionResult.user_answer x \<noteq> Not_answered) ?rs)
      + length (filter QuestionResult.is_correct ?rs)
      + length (filter (\<lambda>x. QuestionResult.user_answer x = Not_answered) ?rs)
    = length ?rs + length (filter (\<lambda>x. QuestionResult.is_correct x
                                \<and> QuestionResult.user_answer x = Not_answered) ?rs)"
    by (rule count_four_ways [of QuestionResult.is_correct
          "\<lambda>x. QuestionResult.user_answer x = Not_answered" ?rs])
  have each: "(ProcessedQuestion.user_answer q = None
             \<longrightarrow> QuestionResult.user_answer (question_result q) = Not_answered)
        \<and> (\<forall>a. ProcessedQuestion.user_answer q = Some a \<and> a \<noteq> []
             \<longrightarrow> QuestionResult.user_answer (question_result q) = a)
        \<and> (QuestionResult.is_correct (question_result q)
             \<longleftrightarrow> ProcessedQuestion.user_answer q = Some (ProcessedQuestion.correct_answer q))
        \<and> (QuestionResult.is_correct (question_result q)
              \<and> QuestionResult.user_answer (question_result q) = Not_answered
             \<longrightarrow> ProcessedQuestion.correct_answer q = Not_answered
                 \<or> ProcessedQuestion.correct_answer q = [])" for q
    by (auto simp: question_result_def or_Not_answered_def split: option.splits if_splits)
  show ?thesis
    unfolding Let_def
    using four each by (simp add: createQuizResults_def Let_def)
qed

lemma js_inj: "js a = js b \<longleftrightarrow> a = b"
  by (simp add: js_def inj_map_eq_map inj_on_def)

text \<open>The theorem for claim C3 at a session with an open question and an answered one.\<close>

theorem createQuizResults_counts_witness:
  "open_question \<in> set (QuizSession.questions (session_of [sentinel_question, open_question]))
   \<and> ProcessedQuestion.user_answer open_question = None
   \<and> QuestionResult.user_answer (question_result open_question) = Not_answered
   \<and> sentinel_question \<in> set (QuizSession.questions (session_of [sentinel_question, open_question]))
   \<and> ProcessedQuestion.user_answer sentinel_question = Some (js ''Not answered'')
   \<and> js ''Not answered'' \<noteq> []
   \<and> QuestionResult.user_answer (question_result sentinel_question) = js ''Not answered''"
  using createQuizResults_counts [of "session_of [sentinel_question, open_question]" 0]
  by (simp add: Let_def session_of_def open_question_def sentinel_question_def js_def)

text \<open>
  Claim C3 as stated fails: the sentinel is an ordinary string. For a question whose correct
  answer is the text \<open>Not answered\<close> and that the user answers with it, the result is
  recorded as the sentinel and counted correct, it is counted as unanswered too, and
  \<open>incorrect_answers\<close> is \<open>0\<close>, not \<open>1 - 1 - 1\<close>.
\<close>

theorem sentinel_counted_correct:
  "QuestionResult.user_answer
       (hd (QuizResults.question_results (createQuizResults (session_of [sentinel_question]) 0)))
     = Not_answered
   \<and> QuestionResult.is_correct
       (hd (QuizResults.question_results (createQuizResults (session_of [sentinel_question]) 0)))
   \<and> QuizResults.correct_answers (createQuizResults (session_of [sentinel_question]) 0) = 1
   \<and> QuizResults.unanswered_questions (createQuizResults (session_of [sentinel_question]) 0) = 1
   \<and> QuizResults.incorrect_answers (createQuizResults (session_of [sentinel_question]) 0) = 0
   \<and> QuizResults.total_questions (createQuizResults (session_of [sentinel_question]) 0) = 1
   \<and> int (QuizResults.incorrect_answers (createQuizResults (session_of [sentinel_question]) 0))
       \<noteq> int (QuizResults.total_questions (createQuizResults (session_of [sentinel_question]) 0))
         - int (QuizResults.correct_answers (createQuizResults (session_of [sentinel_question]) 0))
         - int (QuizResults.unanswered_questions (createQuizResults (session_of [sentinel_question]) 0))"
  by (simp add: createQuizResults_def session_of_def sentinel_question_def question_result_def
      or_Not_answered_def Not_answered_def Let_def js_def)

section \<open>The binary64 model rounds to nearest\<close>

text \<open>
  For a positive fraction \<open>n / d\<close> the pair that \<open>to_binary64\<close> returns has a significand of
  53 bits and differs from \<open>n / d\<close> by at most half a unit in its last place, with an even
  significand when it is exactly half a unit away: it is the binary64 value that IEEE 754
  division and multiplication return.
\<close>

lemma bitlen_0: "bitlen 0 = 0"
  by (subst bitlen.simps) simp

lemma bitlen_Suc: "0 < n \<Longrightarrow> bitlen n = Suc (bitlen (n div 2))"
  by (subst bitlen.simps) simp

lemma bitlen_bounds: "0 < n \<Longrightarrow> 2 ^ (bitlen n - 1) \<le> n \<and> n < 2 ^ bitlen n"
proof (induction n rule: bitlen.induct)
  case (1 n)
  show ?case
  proof (cases "n div 2 = 0")
    case True
    then have "n = 1" using "1.prems" by auto
    then show ?thesis by (simp add: bitlen_Suc bitlen_0)
  next
    case False
    then have IH: "2 ^ (bitlen (n div 2) - 1) \<le> n div 2" "n div 2 < 2 ^ bitlen (n div 2)"
      using "1.IH" "1.prems" by simp_all
    have pos: "0 < bitlen (n div 2)" using False by (simp add: bitlen_Suc)
    have b: "bitlen n = Suc (bitlen (n div 2))" using "1.prems" by (rule bitlen_Suc)
    have "2 * 2 ^ (bitlen (n div 2) - 1) \<le> n" using IH(1) by linarith
    moreover have "(2::nat) * 2 ^ (bitlen (n div 2) - 1) = 2 ^ bitlen (n div 2)"
      using pos by (cases "bitlen (n div 2)") simp_all
    moreover have "n < 2 * 2 ^ bitlen (n div 2)" using IH(2) by linarith
    ultimately show ?thesis by (simp add: b)
  qed
qed

lemma bitlen_pos: "0 < n \<Longrightarrow> 0 < bitlen n"
  by (subst bitlen.simps) simp

lemma two_powr_nat: "(2::real) powr real k = 2 ^ k"
  by (rule powr_realpow) simp

lemma bitlen_real_lower:
  assumes "0 < n"
  shows "2 powr (real (bitlen n) - 1) \<le> real n"
proof -
  have "2 ^ (bitlen n - 1) \<le> n" using bitlen_bounds [OF assms] by simp
  then have "(2::real) ^ (bitlen n - 1) \<le> real n" by simp
  then have "(2::real) powr real (bitlen n - 1) \<le> real n" by (simp only: two_powr_nat)
  moreover have "real (bitlen n - 1) = real (bitlen n) - 1"
    using bitlen_pos [OF assms] by (simp add: of_nat_diff)
  ultimately show ?thesis by (simp only:)
qed

lemma bitlen_real_upper:
  assumes "0 < n"
  shows "real n < 2 powr real (bitlen n)"
proof -
  have "n < 2 ^ bitlen n" using bitlen_bounds [OF assms] by simp
  then have "real n < (2::real) ^ bitlen n" by simp
  then show ?thesis by (simp only: two_powr_nat)
qed

lemma scale2_value:
  assumes "0 < d" and "scale2 n d s = (N, D)"
  shows "0 < D" and "real N / real D = real n / real d * 2 powr real_of_int s"
proof -
  show "0 < D" using assms by (auto simp: scale2_def split: if_splits)
  show "real N / real D = real n / real d * 2 powr real_of_int s"
  proof (cases "0 \<le> s")
    case True
    then have "N = n * 2 ^ nat s" "D = d" using assms(2) by (simp_all add: scale2_def)
    moreover have "2 powr real_of_int s = 2 ^ nat s"
      using True by (simp add: powr_realpow [symmetric])
    ultimately show ?thesis by simp
  next
    case False
    then have "N = n" "D = d * 2 ^ nat (- s)" using assms(2) by (simp_all add: scale2_def)
    moreover have "2 powr real_of_int s = 1 / 2 ^ nat (- s)"
    proof -
      have "2 powr real_of_int s = 1 / 2 powr real_of_int (- s)"
        by (simp add: powr_minus divide_simps)
      also have "2 powr real_of_int (- s) = 2 ^ nat (- s)"
        using False by (simp add: powr_realpow [symmetric])
      finally show ?thesis .
    qed
    ultimately show ?thesis by simp
  qed
qed


lemma exponent2_bounds:
  assumes "0 < n" and "0 < d"
  shows "2 powr real_of_int (exponent2 n d) \<le> real n / real d"
    and "real n / real d < 2 powr real_of_int (exponent2 n d + 1)"
proof -
  define k0 where "k0 = int (bitlen n) - int (bitlen d)"
  obtain N D where s: "scale2 n d (- k0) = (N, D)" by (cases "scale2 n d (- k0)")
  have D: "0 < D" and v: "real N / real D = real n / real d * 2 powr real_of_int (- k0)"
    using scale2_value [OF assms(2) s] by simp_all
  have k: "exponent2 n d = (if D \<le> N then k0 else k0 - 1)"
    by (simp add: exponent2_def Let_def k0_def [symmetric] s)
  let ?x = "real n / real d"
  have dpos: "0 < real d" using assms(2) by simp
  have xk: "?x * 2 powr real_of_int (- k0) = ?x / 2 powr real_of_int k0"
    by (simp add: powr_minus divide_simps)
  have test: "D \<le> N \<longleftrightarrow> 2 powr real_of_int k0 \<le> ?x"
  proof -
    have "D \<le> N \<longleftrightarrow> 1 \<le> real N / real D" using D by (simp add: divide_simps)
    also have "\<dots> \<longleftrightarrow> 1 \<le> ?x / 2 powr real_of_int k0" by (simp only: v xk)
    also have "\<dots> \<longleftrightarrow> 2 powr real_of_int k0 \<le> ?x"
      by (rule le_divide_eq_1_pos) simp
    finally show ?thesis .
  qed
  have rk0: "real_of_int k0 = real (bitlen n) - real (bitlen d)" by (simp add: k0_def)
  have lo: "2 powr (real_of_int k0 - 1) < ?x"
  proof -
    have "2 powr (real (bitlen n) - 1) * real d < real n * 2 powr real (bitlen d)"
      using bitlen_real_lower [OF assms(1)] bitlen_real_upper [OF assms(2)] assms
      by (intro mult_le_less_imp_less) simp_all
    then have "2 powr (real (bitlen n) - 1) / 2 powr real (bitlen d) < ?x"
      using dpos by (simp add: divide_simps mult.commute)
    then show ?thesis by (simp add: rk0 powr_diff)
  qed
  have hi: "?x < 2 powr (real_of_int k0 + 1)"
  proof -
    have "real n * 2 powr (real (bitlen d) - 1) < 2 powr real (bitlen n) * real d"
      using bitlen_real_upper [OF assms(1)] bitlen_real_lower [OF assms(2)] assms
      by (intro mult_less_le_imp_less) simp_all
    then have "?x < 2 powr real (bitlen n) / 2 powr (real (bitlen d) - 1)"
      using dpos by (simp add: divide_simps mult.commute)
    also have "\<dots> = 2 powr (real (bitlen n) - (real (bitlen d) - 1))"
      by (simp only: powr_diff)
    also have "real (bitlen n) - (real (bitlen d) - 1) = real_of_int k0 + 1"
      by (simp add: rk0)
    finally show ?thesis .
  qed
  show "2 powr real_of_int (exponent2 n d) \<le> ?x"
  proof (cases "D \<le> N")
    case True
    then show ?thesis using test k by simp
  next
    case False
    then show ?thesis using lo k by simp
  qed
  show "?x < 2 powr real_of_int (exponent2 n d + 1)"
  proof (cases "D \<le> N")
    case True
    then show ?thesis using hi k by simp
  next
    case False
    then have "?x < 2 powr real_of_int k0" using test by simp
    then show ?thesis using False k by simp
  qed
qed

lemma div_mod_real:
  assumes "0 < D"
  shows "real N / real D = real (N div D) + real (N mod D) / real D"
proof -
  have "real N = real (N div D) * real D + real (N mod D)"
    by (metis div_mult_mod_eq of_nat_add of_nat_mult)
  then show ?thesis using assms by (simp add: field_simps)
qed

lemma round_half_even_cases:
  "round_half_even N D = N div D \<and> 2 * (N mod D) \<le> D
   \<or> round_half_even N D = N div D + 1 \<and> D \<le> 2 * (N mod D)"
  by (auto simp: round_half_even_def Let_def)

lemma round_half_even_nearest:
  assumes "0 < D"
  shows "\<bar>real N / real D - real (round_half_even N D)\<bar> \<le> 1 / 2"
proof -
  define f where "f = real (N mod D) / real D"
  have eq: "real N / real D = real (N div D) + f"
    unfolding f_def using assms by (rule div_mod_real)
  have r: "f < 1" "0 \<le> f"
    unfolding f_def using assms by simp_all
  from round_half_even_cases [of N D] show ?thesis
  proof
    assume a: "round_half_even N D = N div D \<and> 2 * (N mod D) \<le> D"
    then have "real (2 * (N mod D)) \<le> real D" by (simp only: of_nat_le_iff)
    then have "f \<le> 1 / 2" unfolding f_def using assms by (simp add: field_simps)
    then show ?thesis using a r unfolding eq by simp
  next
    assume a: "round_half_even N D = N div D + 1 \<and> D \<le> 2 * (N mod D)"
    then have "real D \<le> real (2 * (N mod D))" by (simp only: of_nat_le_iff)
    then have "1 / 2 \<le> f" unfolding f_def using assms by (simp add: field_simps)
    then show ?thesis using a r unfolding eq by simp
  qed
qed

lemma round_half_even_tie:
  assumes "0 < D" and "\<bar>real N / real D - real (round_half_even N D)\<bar> = 1 / 2"
  shows "even (round_half_even N D)"
proof -
  define f where "f = real (N mod D) / real D"
  have eq: "real N / real D = real (N div D) + f"
    unfolding f_def using assms(1) by (rule div_mod_real)
  have r: "f < 1" "0 \<le> f"
    unfolding f_def using assms(1) by simp_all
  have "f = 1 / 2"
    using round_half_even_cases [of N D] assms(2) r unfolding eq by auto
  then have "real (2 * (N mod D)) = real D"
    unfolding f_def using assms(1) by (simp add: field_simps)
  then have "2 * (N mod D) = D" by (simp only: of_nat_eq_iff)
  then show ?thesis by (auto simp: round_half_even_def Let_def)
qed

lemma round_half_even_bounds:
  assumes "0 < D" and "real L \<le> real N / real D" and "real N / real D < real U"
  shows "L \<le> round_half_even N D" and "round_half_even N D \<le> U"
proof -
  have "L * D \<le> N" using assms(1,2) by (simp add: field_simps) (metis of_nat_le_iff of_nat_mult)
  then have lo: "L \<le> N div D" using assms(1) by (simp add: less_eq_div_iff_mult_less_eq)
  have "N < U * D" using assms(1,3) by (simp add: field_simps) (metis of_nat_less_iff of_nat_mult)
  then have hi: "N div D < U" using assms(1) by (simp add: div_less_iff_less_mult)
  from round_half_even_cases [of N D] lo show "L \<le> round_half_even N D" by auto
  from round_half_even_cases [of N D] hi show "round_half_even N D \<le> U" by auto
qed

lemma to_binary64_nearest:
  assumes "0 < n" and "0 < d"
  shows "2 ^ 52 \<le> fst (to_binary64 n d)"
    and "fst (to_binary64 n d) \<le> 2 ^ 53"
    and "\<bar>real n / real d - value_of (to_binary64 n d)\<bar>
           \<le> 2 powr (real_of_int (snd (to_binary64 n d)) - 1)"
    and "\<bar>real n / real d - value_of (to_binary64 n d)\<bar>
           = 2 powr (real_of_int (snd (to_binary64 n d)) - 1) \<Longrightarrow> even (fst (to_binary64 n d))"
proof -
  define k where "k = exponent2 n d"
  define x where "x = real n / real d"
  obtain N D where s: "scale2 n d (52 - k) = (N, D)" by (cases "scale2 n d (52 - k)")
  define m where "m = round_half_even N D"
  define u where "u = 2 powr real_of_int (k - 52)"
  have res: "to_binary64 n d = (m, k - 52)"
    using assms(1) by (simp add: to_binary64_def Let_def k_def [symmetric] s m_def)
  have D: "0 < D" and v: "real N / real D = x * 2 powr real_of_int (52 - k)"
    using scale2_value [OF assms(2) s] by (simp_all add: x_def)
  have u: "0 < u" by (simp add: u_def)
  have inv: "2 powr real_of_int (52 - k) * u = 1"
    unfolding u_def by (simp add: powr_add [symmetric])
  have xu: "x = real N / real D * u"
    unfolding v using inv by (simp add: mult.assoc)
  have kx: "2 powr real_of_int k \<le> x" "x < 2 powr real_of_int (k + 1)"
    using exponent2_bounds [OF assms] by (simp_all add: k_def x_def)
  have "2 powr real_of_int k * 2 powr real_of_int (52 - k) \<le> x * 2 powr real_of_int (52 - k)"
    using kx(1) by (intro mult_right_mono) simp_all
  then have "2 powr 52 \<le> real N / real D"
    unfolding v by (simp add: powr_add [symmetric])
  moreover have "(2::real) powr 52 = real (2 ^ 52)"
    using two_powr_nat [of 52] by simp
  ultimately have lo: "real (2 ^ 52) \<le> real N / real D" by (simp only:)
  have "x * 2 powr real_of_int (52 - k) < 2 powr real_of_int (k + 1) * 2 powr real_of_int (52 - k)"
    using kx(2) by (intro mult_strict_right_mono) simp_all
  then have "real N / real D < 2 powr 53"
    unfolding v by (simp add: powr_add [symmetric])
  moreover have "(2::real) powr 53 = real (2 ^ 53)"
    using two_powr_nat [of 53] by simp
  ultimately have hi: "real N / real D < real (2 ^ 53)" by (simp only:)
  show "2 ^ 52 \<le> fst (to_binary64 n d)"
    using round_half_even_bounds(1) [OF D lo hi] by (simp add: res m_def)
  show "fst (to_binary64 n d) \<le> 2 ^ 53"
    using round_half_even_bounds(2) [OF D lo hi] by (simp add: res m_def)
  have val: "value_of (to_binary64 n d) = real m * u"
    by (simp add: res value_of_def u_def)
  have diff: "\<bar>x - real m * u\<bar> = \<bar>real N / real D - real m\<bar> * u"
  proof -
    have "x - real m * u = (real N / real D - real m) * u"
      unfolding xu by (simp add: algebra_simps)
    then show ?thesis using u by (simp add: abs_mult)
  qed
  have half: "2 powr (real_of_int (k - 52) - 1) = 1 / 2 * u"
    unfolding u_def by (simp add: powr_diff)
  have near: "\<bar>real N / real D - real m\<bar> \<le> 1 / 2"
    unfolding m_def using D by (rule round_half_even_nearest)
  have "\<bar>x - real m * u\<bar> \<le> 1 / 2 * u"
    unfolding diff using near u by (intro mult_right_mono) simp_all
  then show "\<bar>real n / real d - value_of (to_binary64 n d)\<bar>
           \<le> 2 powr (real_of_int (snd (to_binary64 n d)) - 1)"
    unfolding val by (simp only: res snd_conv half x_def)
  show "even (fst (to_binary64 n d))"
    if tie: "\<bar>real n / real d - value_of (to_binary64 n d)\<bar>
           = 2 powr (real_of_int (snd (to_binary64 n d)) - 1)"
  proof -
    have "\<bar>x - real m * u\<bar> = 1 / 2 * u"
      using tie unfolding val by (simp only: res snd_conv half x_def)
    then have "\<bar>real N / real D - real m\<bar> * u = 1 / 2 * u" by (simp only: diff)
    then have "\<bar>real N / real D - real m\<bar> = 1 / 2" using u by simp
    then have "even m" unfolding m_def using D by (intro round_half_even_tie)
    then show ?thesis by (simp add: res)
  qed
qed

text \<open>
  The product of \<open>fmul\<close> is rounded from the exact product, and \<open>Math_round\<close> is the floor of
  the value plus one half.
\<close>

lemma fmul_product:
  assumes "scale2 (m * c) 1 e = (N, D)"
  shows "0 < D" and "real N / real D = value_of (m, e) * real c"
  using scale2_value [OF _ assms] by (simp_all add: value_of_def)

lemma Math_round_floor: "int (Math_round x) = \<lfloor>value_of x + 1 / 2\<rfloor>"
proof -
  obtain m e where x: "x = (m, e)" by (cases x)
  obtain N D where s: "scale2 m 1 e = (N, D)" by (cases "scale2 m 1 e")
  have D: "0 < D" and v: "real N / real D = value_of x"
    using scale2_value [OF _ s] by (simp_all add: value_of_def x)
  have "real (2 * N + D) / real (2 * D) = real N / real D + 1 / 2"
    using D by (simp add: field_simps)
  then have "\<lfloor>value_of x + 1 / 2\<rfloor> = \<lfloor>real (2 * N + D) / real (2 * D)\<rfloor>"
    by (simp only: v)
  also have "\<dots> = int ((2 * N + D) div (2 * D))"
    by (rule floor_divide_of_nat_eq)
  finally show ?thesis using s by (simp add: Math_round_def x)
qed

section \<open>The score\<close>

text \<open>Without an answered question the score is \<open>0\<close>.\<close>

lemma calculateScore_none_answered:
  "filter ProcessedQuestion.is_answered qs = [] \<Longrightarrow> calculateScore qs = 0"
  by (simp add: calculateScore_def)

lemmas fl_defs = Math_round_def fmul_def fdiv_def to_binary64_def exponent2_def scale2_def
  round_half_even_def bitlen.simps Let_def

lemma score_23_of_40: "Math_round (fmul (fdiv 23 40) 100) = 57"
  by (simp add: fl_defs)

text \<open>
  Claim C1. The score is meant to be the percentage of correct answers among the answered
  questions, rounded. For forty answered questions of which twenty-three are correct the
  percentage is exactly \<open>57.5\<close>, which rounds to \<open>58\<close> with ties upwards and with ties to
  even; \<open>calculateScore\<close> returns \<open>57\<close>, because the binary64 quotient \<open>23 / 40\<close> times \<open>100\<close>
  is the binary64 value just below \<open>57.5\<close>.
\<close>

theorem score_of_forty_answered:
  "length (filter ProcessedQuestion.is_answered forty_answered) = 40
   \<and> length (filter (\<lambda>q. ProcessedQuestion.user_answer q = Some (ProcessedQuestion.correct_answer q))
        (filter ProcessedQuestion.is_answered forty_answered)) = 23
   \<and> calculateScore forty_answered = 57
   \<and> percent_half_up 23 40 = 58
   \<and> percent_half_even 23 40 = 58"
proof -
  have a: "filter ProcessedQuestion.is_answered forty_answered = forty_answered"
    by (simp add: forty_answered_def answered_with_def)
  have c: "filter (\<lambda>q. ProcessedQuestion.user_answer q = Some (ProcessedQuestion.correct_answer q))
      forty_answered = replicate 23 (answered_with (js ''A''))"
    by (simp add: forty_answered_def answered_with_def js_def)
  have l: "length forty_answered = 40"
    by (simp add: forty_answered_def)
  have ne: "forty_answered \<noteq> []"
    using l by auto
  have s: "calculateScore forty_answered = 57"
    by (simp add: calculateScore_def a c l ne score_23_of_40)
  have p: "percent_half_up 23 40 = 58" "percent_half_even 23 40 = 58"
    by (simp_all add: percent_half_up_def percent_half_even_def round_half_even_def)
  show ?thesis
    using s p by (simp add: a c l)
qed

section \<open>The decoder: successive replacements and the single pass\<close>

lemma good_later_entities: "good_table later_entities"
  by (simp add: good_table_def later_entities_def js_def name_char_def)

lemma good_tableD:
  assumes "good_table tbl" and "(pat, rep) \<in> set tbl"
  shows "pat \<noteq> []" and "hd pat = 38" and "38 \<notin> set (tl pat)" and "rep \<noteq> []" and "38 \<notin> set rep"
    and "\<And>c. c \<in> set (tl pat) \<Longrightarrow> name_char c" and "\<And>c. c \<in> set rep \<Longrightarrow> \<not> name_char c"
  using assms unfolding good_table_def list_all_iff by (fastforce simp: name_char_def)+

lemma good_table_butlast: "good_table (tbl @ [x]) \<Longrightarrow> good_table tbl"
  unfolding good_table_def by simp

subsection \<open>One global replacement\<close>

lemma replace_global_skip:
  "pat \<noteq> [] \<Longrightarrow> hd pat \<notin> set u \<Longrightarrow> replace_global pat rep (u @ v) = u @ replace_global pat rep v"
proof (induction u)
  case Nil
  show ?case by simp
next
  case (Cons x u)
  have "\<not> prefix pat (x # u @ v)"
    using Cons.prems by (cases pat) auto
  then show ?case using Cons by simp
qed

lemma replace_global_match:
  "pat \<noteq> [] \<Longrightarrow> replace_global pat rep (pat @ v) = rep @ replace_global pat rep v"
  by (cases pat) simp_all

lemma first_match_SomeD:
  "first_match tbl s = Some (pat, rep) \<Longrightarrow> (pat, rep) \<in> set tbl \<and> pat \<noteq> [] \<and> prefix pat s"
  by (induction tbl) (auto split: if_splits)

lemma first_match_snoc:
  "first_match (tbl @ [(pat, rep)]) s =
     (case first_match tbl s of
        Some x \<Rightarrow> Some x
      | None \<Rightarrow> if pat \<noteq> [] \<and> prefix pat s then Some (pat, rep) else None)"
  by (induction tbl) auto

lemma first_match_other_char:
  "good_table tbl \<Longrightarrow> c \<noteq> 38 \<Longrightarrow> first_match tbl (c # cs) = None"
proof (induction tbl)
  case Nil
  show ?case by simp
next
  case (Cons x tbl)
  obtain pat rep where x: "x = (pat, rep)" by (cases x)
  have "pat \<noteq> []" "hd pat = 38" using Cons.prems(1) by (simp_all add: good_table_def x)
  then have "\<not> prefix pat (c # cs)" using Cons.prems(2) by (cases pat) auto
  moreover have "good_table tbl" using Cons.prems(1) by (simp add: good_table_def)
  ultimately show ?case using Cons x by simp
qed

lemma single_pass_skip:
  "good_table tbl \<Longrightarrow> 38 \<notin> set u \<Longrightarrow> single_pass tbl (u @ v) = u @ single_pass tbl v"
  by (induction u) (simp_all add: first_match_other_char)

lemma single_pass_prefix_back:
  assumes "good_table tbl" and "\<And>c. c \<in> set u \<Longrightarrow> name_char c"
  shows "prefix u (single_pass tbl s) \<Longrightarrow> prefix u s"
  using assms(2)
proof (induction u arbitrary: s)
  case Nil
  show ?case by simp
next
  case (Cons x u)
  from Cons.prems(1) obtain c cs where s: "s = c # cs"
    by (cases s) auto
  show ?case
  proof (cases "first_match tbl (c # cs)")
    case None
    then have "single_pass tbl s = c # single_pass tbl cs" by (simp add: s)
    with Cons.prems(1) have "x = c" "prefix u (single_pass tbl cs)" by simp_all
    moreover have "prefix u cs"
      using Cons.IH [OF \<open>prefix u (single_pass tbl cs)\<close>] Cons.prems(2) by simp
    ultimately show ?thesis by (simp add: s)
  next
    case (Some m)
    obtain pat rep where m: "m = (pat, rep)" by (cases m)
    have mem: "(pat, rep) \<in> set tbl" using first_match_SomeD Some m by blast
    have rep: "rep \<noteq> []" "\<And>c. c \<in> set rep \<Longrightarrow> \<not> name_char c"
      using good_tableD(4,7) [OF assms(1) mem] by blast+
    obtain y ys where r: "rep = y # ys" using rep(1) by (cases rep) auto
    have "single_pass tbl s = rep @ single_pass tbl (drop (length pat - 1) cs)"
      using Some m by (simp add: s)
    with Cons.prems(1) have "x = y" by (simp add: r)
    then have "\<not> name_char x" using rep(2) r by simp
    moreover have "name_char x" using Cons.prems(2) by simp
    ultimately show ?thesis by contradiction
  qed
qed

lemma replace_after_single_pass:
  assumes "good_table (tbl @ [(pat, rep)])"
  shows "replace_global pat rep (single_pass tbl s) = single_pass (tbl @ [(pat, rep)]) s"
proof (induction "tbl @ [(pat, rep)]" s rule: single_pass.induct)
  case 1
  show ?case by simp
next
  case (2 c cs)
  have good: "good_table tbl" using assms by (rule good_table_butlast)
  have pat: "pat \<noteq> []" "hd pat = 38" "38 \<notin> set (tl pat)" "\<And>c. c \<in> set (tl pat) \<Longrightarrow> name_char c"
    using good_tableD(1,2,3,6) [OF assms, of pat rep] by simp_all
  show ?case
  proof (cases "first_match tbl (c # cs)")
    case (Some m)
    obtain p' r' where m: "m = (p', r')" by (cases m)
    have mem: "(p', r') \<in> set tbl" using first_match_SomeD Some m by blast
    have r': "38 \<notin> set r'" using good_tableD(5) [OF good mem] .
    have fm: "first_match (tbl @ [(pat, rep)]) (c # cs) = Some (p', r')"
      using Some m by (simp add: first_match_snoc)
    have IH: "replace_global pat rep (single_pass tbl (drop (length p' - 1) cs))
        = single_pass (tbl @ [(pat, rep)]) (drop (length p' - 1) cs)"
      using "2.hyps"(2) [OF fm refl] .
    have "replace_global pat rep (single_pass tbl (c # cs))
        = replace_global pat rep (r' @ single_pass tbl (drop (length p' - 1) cs))"
      using Some m by simp
    also have "\<dots> = r' @ replace_global pat rep (single_pass tbl (drop (length p' - 1) cs))"
      using pat(1,2) r' by (simp add: replace_global_skip)
    finally show ?thesis using IH fm by simp
  next
    case None
    show ?thesis
    proof (cases "prefix pat (c # cs)")
      case True
      then obtain rest where cs: "c # cs = pat @ rest" by (auto simp: prefix_def)
      have fm: "first_match (tbl @ [(pat, rep)]) (c # cs) = Some (pat, rep)"
        using None True pat(1) by (simp add: first_match_snoc)
      have c: "c = 38" "cs = tl pat @ rest"
        using cs pat(1,2) by (cases pat; simp)+
      have rest: "drop (length pat - 1) cs = rest"
        using c(2) pat(1) by simp
      have IH: "replace_global pat rep (single_pass tbl rest)
          = single_pass (tbl @ [(pat, rep)]) rest"
        using "2.hyps"(2) [OF fm refl] rest by simp
      have "single_pass tbl (c # cs) = c # single_pass tbl (tl pat @ rest)"
        using None c by simp
      also have "\<dots> = c # tl pat @ single_pass tbl rest"
        using good pat(3) by (simp add: single_pass_skip)
      also have "\<dots> = pat @ single_pass tbl rest"
        using c(1) pat(1,2) by (cases pat) simp_all
      finally have "replace_global pat rep (single_pass tbl (c # cs))
          = rep @ replace_global pat rep (single_pass tbl rest)"
        using pat(1) by (simp add: replace_global_match)
      then show ?thesis using IH fm rest by simp
    next
      case False
      have fm: "first_match (tbl @ [(pat, rep)]) (c # cs) = None"
        using None False by (simp add: first_match_snoc)
      have IH: "replace_global pat rep (single_pass tbl cs) = single_pass (tbl @ [(pat, rep)]) cs"
        using "2.hyps"(1) [OF fm] .
      have "\<not> prefix pat (c # single_pass tbl cs)"
      proof
        assume p: "prefix pat (c # single_pass tbl cs)"
        obtain a t where at: "pat = a # t" using pat(1) by (cases pat) auto
        have "c = a" "prefix t (single_pass tbl cs)" using p at by simp_all
        moreover have "prefix t cs"
          using single_pass_prefix_back [OF good _ \<open>prefix t (single_pass tbl cs)\<close>] pat(4) at
          by simp
        ultimately have "prefix pat (c # cs)" using at by simp
        with False show False by contradiction
      qed
      then show ?thesis using None IH fm by simp
    qed
  qed
qed

lemma replace_chain_snoc:
  "replace_chain (tbl @ [(pat, rep)]) s = replace_global pat rep (replace_chain tbl s)"
  by (simp add: replace_chain_def)

lemma replace_chain_single_pass:
  "good_table tbl \<Longrightarrow> replace_chain tbl s = single_pass tbl s"
proof (induction tbl arbitrary: s rule: rev_induct)
  case Nil
  show ?case by (induction s) (simp_all add: replace_chain_def)
next
  case (snoc x tbl)
  obtain pat rep where x: "x = (pat, rep)" by (cases x)
  have "good_table tbl" using snoc.prems by (rule good_table_butlast)
  then have "replace_chain tbl s = single_pass tbl s" by (rule snoc.IH)
  then show ?case
    using replace_after_single_pass [of tbl pat rep s] snoc.prems
    by (simp add: x replace_chain_snoc)
qed

lemma decode_two_passes:
  "decodeHtmlEntities text
     = single_pass later_entities (replace_global (js ''&amp;'') (js ''&'') text)"
proof -
  have "decodeHtmlEntities text
      = replace_chain later_entities (replace_global (js ''&amp;'') (js ''&'') text)"
    by (simp add: decodeHtmlEntities_def entities_def replace_chain_def)
  then show ?thesis
    by (simp add: replace_chain_single_pass good_later_entities)
qed


subsection \<open>Text without \<open>&amp;\<close>\<close>

lemma not_sublist_Cons: "\<not> sublist pat (c # cs) \<Longrightarrow> \<not> prefix pat (c # cs) \<and> \<not> sublist pat cs"
  by (simp add: sublist_Cons_right)

lemma not_sublist_drop:
  assumes "\<not> sublist pat (c # cs)"
  shows "\<not> sublist pat (drop n cs)"
proof
  assume "sublist pat (drop n cs)"
  moreover have "sublist (drop n cs) (c # cs)"
    by (simp add: sublist_Cons_right)
  ultimately have "sublist pat (c # cs)"
    by (rule sublist_order.order.trans)
  with assms show False by contradiction
qed

lemma replace_global_absent:
  "\<not> sublist pat s \<Longrightarrow> replace_global pat rep s = s"
proof (induction s)
  case Nil
  show ?case by simp
next
  case (Cons c cs)
  then show ?case using not_sublist_Cons [OF Cons.prems] by simp
qed

lemma single_pass_Cons_absent:
  "\<not> sublist pat s \<Longrightarrow> single_pass ((pat, rep) # tbl) s = single_pass tbl s"
proof (induction tbl s rule: single_pass.induct)
  case (1 tbl)
  show ?case by simp
next
  case (2 tbl c cs)
  have np: "\<not> prefix pat (c # cs)" "\<not> sublist pat cs"
    using not_sublist_Cons [OF "2.prems"] by simp_all
  have fm: "first_match ((pat, rep) # tbl) (c # cs) = first_match tbl (c # cs)"
    using np by simp
  show ?case
  proof (cases "first_match tbl (c # cs)")
    case None
    have "single_pass ((pat, rep) # tbl) cs = single_pass tbl cs"
      using "2.IH"(1) [OF None np(2)] .
    then show ?thesis using None fm by simp
  next
    case (Some m)
    obtain p' r' where m: "m = (p', r')" by (cases m)
    have fm': "first_match tbl (c # cs) = Some (p', r')" using Some m by simp
    have "\<not> sublist pat (drop (length p' - 1) cs)"
      using "2.prems" by (rule not_sublist_drop)
    then have "single_pass ((pat, rep) # tbl) (drop (length p' - 1) cs)
        = single_pass tbl (drop (length p' - 1) cs)"
      using "2.IH"(2) [OF fm' refl] by simp
    then show ?thesis using fm' fm by simp
  qed
qed

subsection \<open>Splitting the text in front of an ampersand\<close>

lemma prefix_at_ampersand:
  assumes "pat = a # t" and "a \<notin> set t"
  shows "prefix pat ((c # cs) @ a # w) \<longleftrightarrow> prefix pat (c # cs)"
proof
  assume "prefix pat ((c # cs) @ a # w)"
  then have "prefix pat (c # cs) \<or> (\<exists>us. pat = (c # cs) @ us \<and> prefix us (a # w))"
    by (simp only: prefix_append)
  then show "prefix pat (c # cs)"
  proof
    assume "prefix pat (c # cs)"
    then show ?thesis .
  next
    assume "\<exists>us. pat = (c # cs) @ us \<and> prefix us (a # w)"
    then obtain us where us: "pat = (c # cs) @ us" "prefix us (a # w)" by blast
    show ?thesis
    proof (cases us)
      case Nil
      then show ?thesis using us(1) by simp
    next
      case (Cons x xs)
      then have "x = a" using us(2) by simp
      then have "a \<in> set t" using us(1) Cons assms(1) by auto
      with assms(2) show ?thesis by contradiction
    qed
  qed
next
  assume "prefix pat (c # cs)"
  then show "prefix pat ((c # cs) @ a # w)" by (rule prefix_prefix)
qed

lemma drop_append_le: "n \<le> length xs \<Longrightarrow> drop n (xs @ ys) = drop n xs @ ys"
  by simp

lemma replace_global_at_match:
  "pat \<noteq> [] \<Longrightarrow> prefix pat s \<Longrightarrow>
   replace_global pat rep s = rep @ replace_global pat rep (drop (length pat) s)"
  by (cases s) simp_all

lemma replace_global_no_match:
  "\<not> prefix pat (c # cs) \<Longrightarrow> replace_global pat rep (c # cs) = c # replace_global pat rep cs"
  by simp

lemma replace_global_split:
  assumes "pat = a # t" and "a \<notin> set t"
  shows "replace_global pat rep (u @ a # w) = replace_global pat rep u @ replace_global pat rep (a # w)"
proof (induction u rule: length_induct)
  case (1 u)
  have pne: "pat \<noteq> []" using assms(1) by simp
  show ?case
  proof (cases u)
    case Nil
    then show ?thesis by simp
  next
    case (Cons c cs)
    show ?thesis
    proof (cases "prefix pat (c # cs)")
      case True
      then have le: "length pat \<le> length (c # cs)" by (rule prefix_length_le)
      have "length (drop (length pat) (c # cs)) < length u"
        using Cons pne by simp
      then have IH: "replace_global pat rep (drop (length pat) (c # cs) @ a # w)
          = replace_global pat rep (drop (length pat) (c # cs)) @ replace_global pat rep (a # w)"
        using 1 by blast
      have "prefix pat ((c # cs) @ a # w)" using True by (rule prefix_prefix)
      then have "replace_global pat rep ((c # cs) @ a # w)
          = rep @ replace_global pat rep (drop (length pat) ((c # cs) @ a # w))"
        using pne by (rule replace_global_at_match [rotated])
      also have "drop (length pat) ((c # cs) @ a # w) = drop (length pat) (c # cs) @ a # w"
        using le by (rule drop_append_le)
      finally have "replace_global pat rep ((c # cs) @ a # w)
          = rep @ replace_global pat rep (drop (length pat) (c # cs)) @ replace_global pat rep (a # w)"
        using IH by simp
      moreover have "replace_global pat rep (c # cs)
          = rep @ replace_global pat rep (drop (length pat) (c # cs))"
        using pne True by (rule replace_global_at_match)
      ultimately show ?thesis using Cons by simp
    next
      case False
      then have "\<not> prefix pat (c # (cs @ a # w))"
        using prefix_at_ampersand [OF assms, of c cs w] by simp
      then have "replace_global pat rep (c # (cs @ a # w)) = c # replace_global pat rep (cs @ a # w)"
        by (rule replace_global_no_match)
      moreover have "replace_global pat rep (cs @ a # w)
          = replace_global pat rep cs @ replace_global pat rep (a # w)"
        using 1 Cons by simp
      moreover have "replace_global pat rep (c # cs) = c # replace_global pat rep cs"
        using False by (rule replace_global_no_match)
      ultimately show ?thesis using Cons by simp
    qed
  qed
qed

lemma first_match_at_ampersand:
  "good_table tbl \<Longrightarrow> first_match tbl ((c # cs) @ 38 # w) = first_match tbl (c # cs)"
proof (induction tbl)
  case Nil
  show ?case by simp
next
  case (Cons x tbl)
  obtain pat rep where x: "x = (pat, rep)" by (cases x)
  have g: "good_table tbl" using Cons.prems by (simp add: good_table_def)
  have "pat \<noteq> []" "hd pat = 38" "38 \<notin> set (tl pat)"
    using good_tableD(1,2,3) [OF Cons.prems, of pat rep] x by simp_all
  then have "pat = 38 # tl pat" by (cases pat) simp_all
  then have "prefix pat ((c # cs) @ 38 # w) \<longleftrightarrow> prefix pat (c # cs)"
    using prefix_at_ampersand [of pat 38 "tl pat" c cs w] \<open>38 \<notin> set (tl pat)\<close> by simp
  then show ?case using Cons.IH [OF g] x by simp
qed

lemma single_pass_split:
  assumes "good_table tbl"
  shows "single_pass tbl (u @ 38 # w) = single_pass tbl u @ single_pass tbl (38 # w)"
proof (induction u rule: length_induct)
  case (1 u)
  show ?case
  proof (cases u)
    case Nil
    then show ?thesis by simp
  next
    case (Cons c cs)
    have fm: "first_match tbl ((c # cs) @ 38 # w) = first_match tbl (c # cs)"
      using assms by (rule first_match_at_ampersand)
    show ?thesis
    proof (cases "first_match tbl (c # cs)")
      case None
      have "single_pass tbl (cs @ 38 # w) = single_pass tbl cs @ single_pass tbl (38 # w)"
        using 1 Cons by simp
      then show ?thesis using None fm Cons by simp
    next
      case (Some m)
      obtain pat rep where m: "m = (pat, rep)" by (cases m)
      have p: "pat \<noteq> []" "prefix pat (c # cs)"
        using first_match_SomeD [of tbl "c # cs" pat rep] Some m by simp_all
      then have le: "length pat - 1 \<le> length cs"
        using prefix_length_le [OF p(2)] by simp
      have "length (drop (length pat - 1) cs) < length u" using Cons by simp
      then have IH: "single_pass tbl (drop (length pat - 1) cs @ 38 # w)
          = single_pass tbl (drop (length pat - 1) cs) @ single_pass tbl (38 # w)"
        using 1 by blast
      have "drop (length pat - 1) (cs @ 38 # w) = drop (length pat - 1) cs @ 38 # w"
        using le by simp
      then show ?thesis using Some m fm Cons IH by simp
    qed
  qed
qed

subsection \<open>The decoder\<close>

lemma closed_later_entities: "closed_names later_entities"
  by (simp add: closed_names_def later_entities_def js_def)

lemma same_name:
  assumes "prefix p (q @ v)"
    and "p \<noteq> []" "last p = c" "c \<notin> set (butlast p)"
    and "q \<noteq> []" "last q = c" "c \<notin> set (butlast q)"
  shows "p = q"
proof -
  from assms(1) have "prefix p q \<or> (\<exists>us. p = q @ us \<and> prefix us v)"
    by (simp only: prefix_append)
  then show ?thesis
  proof
    assume "prefix p q"
    then obtain z where z: "q = p @ z" by (auto simp: prefix_def)
    show ?thesis
    proof (cases "z = []")
      case True
      then show ?thesis using z by simp
    next
      case False
      then have "butlast q = p @ butlast z" using z by (simp add: butlast_append)
      moreover have "c \<in> set p" using assms(2,3) last_in_set by blast
      ultimately show ?thesis using assms(7) by simp
    qed
  next
    assume "\<exists>us. p = q @ us \<and> prefix us v"
    then obtain us where us: "p = q @ us" by blast
    show ?thesis
    proof (cases "us = []")
      case True
      then show ?thesis using us by simp
    next
      case False
      then have "butlast p = q @ butlast us" using us by (simp add: butlast_append)
      moreover have "c \<in> set q" using assms(5,6) last_in_set by blast
      ultimately show ?thesis using assms(4) by simp
    qed
  qed
qed

lemma first_match_closed:
  "closed_names tbl \<Longrightarrow> (pat, rep) \<in> set tbl \<Longrightarrow> first_match tbl (pat @ v) = Some (pat, rep)"
proof (induction tbl)
  case Nil
  then show ?case by simp
next
  case (Cons x tbl)
  obtain p' r' where x: "x = (p', r')" by (cases x)
  have closed: "closed_names tbl" and fresh: "p' \<notin> fst ` set tbl"
    and p': "p' \<noteq> []" "last p' = 59" "59 \<notin> set (butlast p')"
    using Cons.prems(1) by (simp_all add: closed_names_def x)
  have "list_all (\<lambda>(pat, rep). pat \<noteq> [] \<and> last pat = 59 \<and> 59 \<notin> set (butlast pat)) (x # tbl)"
    using Cons.prems(1) by (simp add: closed_names_def)
  then have pat: "pat \<noteq> []" "last pat = 59" "59 \<notin> set (butlast pat)"
    using Cons.prems(2) unfolding list_all_iff by fast+
  show ?case
  proof (cases "prefix p' (pat @ v)")
    case True
    then have "p' = pat" using p' pat by (rule same_name)
    then have "(pat, rep) \<notin> set tbl" using fresh by force
    then have "(pat, rep) = (p', r')" using Cons.prems(2) x by simp
    then show ?thesis using True p'(1) x by simp
  next
    case False
    then have "p' \<noteq> pat" by auto
    then have "(pat, rep) \<in> set tbl" using Cons.prems(2) x by simp
    then show ?thesis using Cons.IH [OF closed] False x by simp
  qed
qed

lemma first_match_own:
  "(pat, rep) \<in> set later_entities \<Longrightarrow> first_match later_entities (pat @ v) = Some (pat, rep)"
  using closed_later_entities by (rule first_match_closed)

lemma single_pass_at_entity:
  assumes "(pat, rep) \<in> set later_entities"
  shows "single_pass later_entities (pat @ v) = rep @ single_pass later_entities v"
proof -
  have pne: "pat \<noteq> []" using good_tableD(1) [OF good_later_entities assms] .
  then obtain c cs where pat: "pat = c # cs" by (cases pat) auto
  have "first_match later_entities (c # (cs @ v)) = Some (pat, rep)"
    using first_match_own [OF assms, of v] pat by simp
  then have "single_pass later_entities (c # (cs @ v))
      = rep @ single_pass later_entities (drop (length pat - 1) (cs @ v))"
    by simp
  then show ?thesis using pat by simp
qed

text \<open>
  Claim C5, as amended. The decoder first replaces every \<open>&amp;\<close> by \<open>&\<close> and then, in the
  resulting text, replaces exactly the other sixteen entities in a single pass and leaves
  everything else unchanged. For every text in which \<open>&amp;\<close> does not occur it is the
  single pass that replaces exactly the seventeen entities and leaves everything else
  unchanged. The two examples of the claim hold.
\<close>

theorem decodeHtmlEntities_single_pass:
  "decodeHtmlEntities text
     = single_pass later_entities (replace_global (js ''&amp;'') (js ''&'') text)
   \<and> (\<not> sublist (js ''&amp;'') text \<longrightarrow> decodeHtmlEntities text = single_pass entities text)
   \<and> decodeHtmlEntities (js ''Tom &amp; Jerry &quot;Show&quot;'')
       = js ''Tom & Jerry '' @ [34] @ js ''Show'' @ [34]
   \<and> decodeHtmlEntities (js ''&foo;'') = js ''&foo;''"
proof -
  have absent: "decodeHtmlEntities text = single_pass entities text"
    if "\<not> sublist (js ''&amp;'') text"
  proof -
    have "decodeHtmlEntities text = single_pass later_entities text"
      using that by (simp add: decode_two_passes replace_global_absent)
    also have "\<dots> = single_pass entities text"
      using that by (simp add: entities_def single_pass_Cons_absent)
    finally show ?thesis .
  qed
  have tom: "decodeHtmlEntities (js ''Tom &amp; Jerry &quot;Show&quot;'')
       = js ''Tom & Jerry '' @ [34] @ js ''Show'' @ [34]"
    by (simp add: decode_eval)
  have foo: "decodeHtmlEntities (js ''&foo;'') = js ''&foo;''"
    by (simp add: decode_eval)
  show ?thesis
    using decode_two_passes absent tom foo by blast
qed

text \<open>The theorem for claim C5 at a text without \<open>&amp;\<close>.\<close>

theorem decodeHtmlEntities_single_pass_witness:
  "\<not> sublist (js ''&amp;'') (js ''&lt;b&gt; &foo;'')
   \<and> decodeHtmlEntities (js ''&lt;b&gt; &foo;'') = single_pass entities (js ''&lt;b&gt; &foo;'')"
proof -
  have "\<not> sublist (js ''&amp;'') (js ''&lt;b&gt; &foo;'')"
    by (simp add: js_def sublist_Cons_right)
  then show ?thesis
    using decodeHtmlEntities_single_pass [of "js ''&lt;b&gt; &foo;''"] by blast
qed

text \<open>
  Claim C5 as stated fails: in \<open>&amp;lt;\<close> the only entity is \<open>&amp;\<close>, and replacing exactly
  the entities gives \<open>&lt;\<close>; the decoder returns \<open><\<close>.
\<close>

theorem decode_differs_from_single_pass:
  "decodeHtmlEntities (js ''&amp;lt;'') = js ''<''
   \<and> single_pass entities (js ''&amp;lt;'') = js ''&lt;''
   \<and> decodeHtmlEntities (js ''&amp;lt;'') \<noteq> single_pass entities (js ''&amp;lt;'')"
  by (simp add: decode_eval)

text \<open>
  Claim C10. One call of the decoder decodes \<open>&amp;lt;\<close> to \<open><\<close>, not to \<open>&lt;\<close>; and for
  every later entity of the chain, written \<open>&X;\<close>, an occurrence of \<open>&amp;X;\<close> anywhere in a
  text is decoded twice, to the characters of \<open>&X;\<close>, the text before and behind it being
  decoded as they are on their own.
\<close>

theorem decode_twice:
  "decodeHtmlEntities (js ''&amp;lt;'') = js ''<''
   \<and> decodeHtmlEntities (js ''&amp;lt;'') \<noteq> js ''&lt;''
   \<and> (\<forall>(pat, rep) \<in> set later_entities. \<forall>u v.
         decodeHtmlEntities (u @ js ''&amp;'' @ tl pat @ v)
           = decodeHtmlEntities u @ rep @ decodeHtmlEntities v)"
proof -
  let ?R = "replace_global (js ''&amp;'') (js ''&'')"
  have amp: "js ''&amp;'' = 38 # js ''amp;''" "38 \<notin> set (js ''amp;'')" "js ''&'' = [38]"
    by (simp_all add: js_def)
  have general: "decodeHtmlEntities (u @ js ''&amp;'' @ tl pat @ v)
      = decodeHtmlEntities u @ rep @ decodeHtmlEntities v"
    if mem: "(pat, rep) \<in> set later_entities" for pat rep u v
  proof -
    have pat: "pat \<noteq> []" "hd pat = 38" "38 \<notin> set (tl pat)"
      using good_tableD(1,2,3) [OF good_later_entities mem] by simp_all
    then have pat_eq: "38 # tl pat = pat" by (cases pat) simp_all
    have "?R (u @ js ''&amp;'' @ tl pat @ v) = ?R (u @ 38 # (js ''amp;'' @ tl pat @ v))"
      by (simp add: amp(1))
    also have "\<dots> = ?R u @ ?R (38 # (js ''amp;'' @ tl pat @ v))"
      using amp(1,2) by (rule replace_global_split)
    also have "?R (38 # (js ''amp;'' @ tl pat @ v)) = ?R (js ''&amp;'' @ (tl pat @ v))"
      by (simp add: amp(1))
    also have "\<dots> = [38] @ ?R (tl pat @ v)"
      using replace_global_match [of "js ''&amp;''" "js ''&''" "tl pat @ v"]
      by (simp only: amp(3)) (simp add: amp(1))
    also have "?R (tl pat @ v) = tl pat @ ?R v"
      using pat(3) by (intro replace_global_skip) (simp_all add: amp(1))
    finally have R: "?R (u @ js ''&amp;'' @ tl pat @ v) = ?R u @ 38 # (tl pat @ ?R v)"
      by simp
    have "single_pass later_entities (?R u @ 38 # (tl pat @ ?R v))
        = single_pass later_entities (?R u) @ single_pass later_entities (38 # (tl pat @ ?R v))"
      using good_later_entities by (rule single_pass_split)
    also have "single_pass later_entities (38 # (tl pat @ ?R v))
        = single_pass later_entities (pat @ ?R v)"
      using pat_eq by (metis append_Cons)
    also have "\<dots> = rep @ single_pass later_entities (?R v)"
      using mem by (rule single_pass_at_entity)
    finally have "single_pass later_entities (?R u @ 38 # (tl pat @ ?R v))
        = single_pass later_entities (?R u) @ rep @ single_pass later_entities (?R v)" .
    then show ?thesis
      by (simp only: decode_two_passes R)
  qed
  have lt: "decodeHtmlEntities (js ''&amp;lt;'') = js ''<''"
    by (simp add: decode_eval)
  have ne: "js ''<'' \<noteq> js ''&lt;''"
    by (simp add: js_def)
  show ?thesis
    using general lt ne by auto
qed

text \<open>The theorem for claim C10 at the entity \<open>&gt;\<close> inside a text.\<close>

theorem decode_twice_witness:
  "(js ''&gt;'', js ''>'') \<in> set later_entities
   \<and> decodeHtmlEntities (js ''a '' @ js ''&amp;'' @ tl (js ''&gt;'') @ js '' b'')
       = decodeHtmlEntities (js ''a '') @ js ''>'' @ decodeHtmlEntities (js '' b'')
   \<and> decodeHtmlEntities (js ''a '' @ js ''&amp;'' @ tl (js ''&gt;'') @ js '' b'') = js ''a > b''"
proof -
  have mem: "(js ''&gt;'', js ''>'') \<in> set later_entities"
    by (simp add: later_entities_def)
  have "decodeHtmlEntities (js ''a '' @ js ''&amp;'' @ tl (js ''&gt;'') @ js '' b'')
       = decodeHtmlEntities (js ''a '') @ js ''>'' @ decodeHtmlEntities (js '' b'')"
    using decode_twice mem by blast
  moreover have "decodeHtmlEntities (js ''a '') = js ''a ''" "decodeHtmlEntities (js '' b'') = js '' b''"
    by (simp_all add: decode_eval)
  ultimately show ?thesis using mem by (simp add: js_def)
qed

section \<open>The email pattern and its language\<close>

lemma nullable_lang: "nullable r \<longleftrightarrow> [] \<in> lang r"
  by (induction r) (auto intro: star_Nil)

lemma star_Cons_split:
  assumes "w \<in> star A" and "w = c # s"
  shows "\<exists>u v. s = u @ v \<and> c # u \<in> A \<and> v \<in> star A"
  using assms
proof (induction arbitrary: s)
  case star_Nil
  then show ?case by simp
next
  case (star_app u v)
  show ?case
  proof (cases u)
    case Nil
    then have "v = c # s" using star_app.prems by simp
    then show ?thesis by (rule star_app.IH)
  next
    case (Cons x u')
    then have "x = c" "s = u' @ v" using star_app.prems by simp_all
    then show ?thesis using star_app.hyps Cons by blast
  qed
qed

lemma star_Cons_iff:
  "c # s \<in> star A \<longleftrightarrow> (\<exists>u v. s = u @ v \<and> c # u \<in> A \<and> v \<in> star A)"
proof
  assume a: "c # s \<in> star A"
  show "\<exists>u v. s = u @ v \<and> c # u \<in> A \<and> v \<in> star A"
    by (rule star_Cons_split [OF a refl])
next
  assume "\<exists>u v. s = u @ v \<and> c # u \<in> A \<and> v \<in> star A"
  then obtain u v where s: "s = u @ v" and u: "c # u \<in> A" and v: "v \<in> star A" by blast
  have "(c # u) @ v \<in> star A" using u v by (rule star_app)
  then show "c # s \<in> star A" by (simp add: s)
qed

lemma Cons_in_Seq:
  "c # s \<in> lang (Seq r1 r2)
     \<longleftrightarrow> ([] \<in> lang r1 \<and> c # s \<in> lang r2)
       \<or> (\<exists>u v. s = u @ v \<and> c # u \<in> lang r1 \<and> v \<in> lang r2)"
proof
  assume "c # s \<in> lang (Seq r1 r2)"
  then obtain u v where uv: "c # s = u @ v" "u \<in> lang r1" "v \<in> lang r2" by auto
  show "([] \<in> lang r1 \<and> c # s \<in> lang r2)
       \<or> (\<exists>u v. s = u @ v \<and> c # u \<in> lang r1 \<and> v \<in> lang r2)"
  proof (cases u)
    case Nil
    then show ?thesis using uv by simp
  next
    case (Cons x u')
    then have "x = c" "s = u' @ v" using uv(1) by simp_all
    then show ?thesis using uv(2,3) Cons by blast
  qed
next
  assume "([] \<in> lang r1 \<and> c # s \<in> lang r2)
       \<or> (\<exists>u v. s = u @ v \<and> c # u \<in> lang r1 \<and> v \<in> lang r2)"
  then show "c # s \<in> lang (Seq r1 r2)"
  proof
    assume "[] \<in> lang r1 \<and> c # s \<in> lang r2"
    then have "[] @ (c # s) \<in> lang (Seq r1 r2)"
      unfolding lang.simps(4) by blast
    then show ?thesis by simp
  next
    assume "\<exists>u v. s = u @ v \<and> c # u \<in> lang r1 \<and> v \<in> lang r2"
    then obtain u v where "s = u @ v" "c # u \<in> lang r1" "v \<in> lang r2" by blast
    then have "(c # u) @ v \<in> lang (Seq r1 r2)" and "c # s = (c # u) @ v"
      unfolding lang.simps(4) by (blast, simp)
    then show ?thesis by simp
  qed
qed

lemma deriv_lang: "s \<in> lang (deriv c r) \<longleftrightarrow> c # s \<in> lang r"
proof (induction r arbitrary: s)
  case Fail
  show ?case by simp
next
  case Eps
  show ?case by simp
next
  case (Class P)
  show ?case by (cases "P c") auto
next
  case (Seq r1 r2)
  have left: "s \<in> lang (Seq (deriv c r1) r2)
      \<longleftrightarrow> (\<exists>u v. s = u @ v \<and> c # u \<in> lang r1 \<and> v \<in> lang r2)"
    using Seq.IH(1) by simp
  show ?case
  proof (cases "nullable r1")
    case True
    then show ?thesis
      using left Seq.IH(2) [of s] by (auto simp add: Cons_in_Seq nullable_lang simp del: lang.simps(4))
  next
    case False
    then show ?thesis
      using left by (simp add: Cons_in_Seq nullable_lang del: lang.simps(4))
  qed
next
  case (Alt r1 r2)
  then show ?case by simp
next
  case (Star r)
  have "s \<in> lang (deriv c (Star r))
      \<longleftrightarrow> (\<exists>u v. s = u @ v \<and> c # u \<in> lang r \<and> v \<in> star (lang r))"
    using Star.IH by simp
  then show ?case by (simp add: star_Cons_iff)
qed

lemma matches_lang: "matches r s \<longleftrightarrow> s \<in> lang r"
  by (induction s arbitrary: r) (simp_all add: nullable_lang deriv_lang)

lemma star_Class: "star {[c] | c. P c} = {w. \<forall>x \<in> set w. P x}"
proof (intro set_eqI iffI)
  fix w
  assume "w \<in> star {[c] | c. P c}"
  then show "w \<in> {w. \<forall>x \<in> set w. P x}"
    by induction auto
next
  fix w
  assume "w \<in> {w. \<forall>x \<in> set w. P x}"
  then have "\<forall>x \<in> set w. P x" by simp
  then show "w \<in> star {[c] | c. P c}"
  proof (induction w)
    case Nil
    show ?case by (rule star_Nil)
  next
    case (Cons x w)
    then have "[x] \<in> {[c] | c. P c}" "w \<in> star {[c] | c. P c}" by simp_all
    then have "[x] @ w \<in> star {[c] | c. P c}" by (rule star_app)
    then show ?case by simp
  qed
qed

lemma lang_OneOrMore_Class: "lang (OneOrMore (Class P)) = {w. w \<noteq> [] \<and> list_all P w}"
proof (intro set_eqI iffI)
  fix w
  assume "w \<in> lang (OneOrMore (Class P))"
  then obtain c v where "w = [c] @ v" "P c" "\<forall>x \<in> set v. P x"
    by (auto simp: OneOrMore_def star_Class)
  then show "w \<in> {w. w \<noteq> [] \<and> list_all P w}"
    by (simp add: list_all_iff)
next
  fix w
  assume "w \<in> {w. w \<noteq> [] \<and> list_all P w}"
  then obtain c v where w: "w = c # v" "P c" "\<forall>x \<in> set v. P x"
    by (cases w) (auto simp: list_all_iff)
  have "[c] \<in> lang (Class P)" using w(2) by simp
  moreover have "v \<in> lang (Star (Class P))" using w(3) by (simp add: star_Class)
  ultimately have "[c] @ v \<in> lang (Seq (Class P) (Star (Class P)))"
    unfolding lang.simps(4) by blast
  then show "w \<in> lang (OneOrMore (Class P))" using w(1) by (simp add: OneOrMore_def)
qed

lemma lang_Chr: "lang (Chr c) = {[c]}"
  by (auto simp: Chr_def)


lemmas match_eval = validateEmail_def emailRegex_def OneOrMore_def Chr_def not_space_or_at_def
  is_space_def js_def

text \<open>
  Claim C8. \<open>validateEmail\<close> returns true exactly for the strings that consist of one or
  more code units that are neither white space nor \<open>@\<close>, then \<open>@\<close>, then one or more such
  code units, then a dot, then one or more such code units; it accepts \<open>a@b.co\<close> and rejects
  \<open>a@b\<close> and \<open>a b@c.com\<close>.
\<close>

theorem validateEmail_pattern:
  "(validateEmail email \<longleftrightarrow>
      (\<exists>a b c. email = a @ [64] @ b @ [46] @ c
         \<and> a \<noteq> [] \<and> list_all not_space_or_at a
         \<and> b \<noteq> [] \<and> list_all not_space_or_at b
         \<and> c \<noteq> [] \<and> list_all not_space_or_at c))
   \<and> validateEmail (js ''a@b.co'')
   \<and> \<not> validateEmail (js ''a@b'')
   \<and> \<not> validateEmail (js ''a b@c.com'')"
proof -
  have "lang emailRegex =
      {a @ [64] @ b @ [46] @ c | a b c.
         a \<noteq> [] \<and> list_all not_space_or_at a
         \<and> b \<noteq> [] \<and> list_all not_space_or_at b
         \<and> c \<noteq> [] \<and> list_all not_space_or_at c}"
    unfolding emailRegex_def lang.simps(4) lang_OneOrMore_Class lang_Chr by blast
  then have general: "validateEmail email \<longleftrightarrow>
      (\<exists>a b c. email = a @ [64] @ b @ [46] @ c
         \<and> a \<noteq> [] \<and> list_all not_space_or_at a
         \<and> b \<noteq> [] \<and> list_all not_space_or_at b
         \<and> c \<noteq> [] \<and> list_all not_space_or_at c)"
    by (simp add: validateEmail_def matches_lang)
  have e1: "validateEmail (js ''a@b.co'')"
    by (simp add: match_eval)
  have e2: "\<not> validateEmail (js ''a@b'')"
    by (simp add: match_eval)
  have e3: "\<not> validateEmail (js ''a b@c.com'')"
    by (simp add: match_eval)
  show ?thesis using general e1 e2 e3 by blast
qed

section \<open>The shuffle: permutations and draws\<close>

lemma draws_Suc: "draws rand k (Suc i) = rand k (Suc i + 1) # draws rand (k + 1) i"
proof -
  have "[0..<Suc i] = 0 # map Suc [0..<i]"
    by (simp add: upt_conv_Cons map_Suc_upt del: upt_Suc)
  then show ?thesis
    by (simp add: draws_def comp_def del: upt_Suc)
qed

lemma shuffle_loop_draws:
  "fst (shuffle_loop rand k i xs) = shuffle_with (draws rand k i) i xs"
  by (induction i arbitrary: k xs) (simp_all add: draws_Suc Let_def)

lemma in_all_draws_Suc:
  "ds \<in> set (all_draws (Suc i)) \<longleftrightarrow> (\<exists>j ds'. ds = j # ds' \<and> j \<le> Suc i \<and> ds' \<in> set (all_draws i))"
proof -
  have "set (all_draws (Suc i)) = (\<Union>j \<in> {0..<Suc i + 1}. (#) j ` set (all_draws i))"
    by (simp del: upt_Suc)
  then show ?thesis by (auto simp: less_Suc_eq_le)
qed

lemma draws_valid: "random_source rand \<Longrightarrow> draws rand k i \<in> set (all_draws i)"
proof (induction i arbitrary: k)
  case 0
  show ?case by (simp add: draws_def)
next
  case (Suc i)
  have "rand k (Suc i + 1) < Suc i + 1"
    using Suc.prems by (simp add: random_source_def)
  then have "rand k (Suc i + 1) \<le> Suc i" by simp
  moreover have "draws rand (k + 1) i \<in> set (all_draws i)"
    using Suc.prems by (rule Suc.IH)
  ultimately show ?case
    unfolding draws_Suc in_all_draws_Suc by blast
qed

lemma length_all_draws: "length (all_draws i) = fact (Suc i)"
proof (induction i)
  case 0
  show ?case by simp
next
  case (Suc i)
  have "length (all_draws (Suc i)) = (\<Sum>j\<leftarrow>[0..<Suc i + 1]. length (all_draws i))"
    by (simp add: length_concat comp_def del: upt_Suc)
  also have "\<dots> = (Suc i + 1) * length (all_draws i)"
    by (simp add: sum_list_triv del: upt_Suc)
  finally show ?case using Suc.IH by simp
qed

lemma distinct_prefixed:
  "distinct A \<Longrightarrow> distinct ds \<Longrightarrow> distinct (concat (map (\<lambda>j. map ((#) j) A) ds))"
proof (induction ds)
  case Nil
  show ?case by simp
next
  case (Cons j ds)
  have "distinct (map ((#) j) A)"
    using Cons.prems(1) by (simp add: distinct_map)
  moreover have "distinct (concat (map (\<lambda>j. map ((#) j) A) ds))"
    using Cons by simp
  moreover have "set (map ((#) j) A) \<inter> set (concat (map (\<lambda>j. map ((#) j) A) ds)) = {}"
    using Cons.prems(2) by auto
  ultimately show ?case by simp
qed

lemma distinct_all_draws: "distinct (all_draws i)"
  by (induction i) (simp_all add: distinct_prefixed del: upt_Suc)

lemma length_shuffle_with [simp]: "length (shuffle_with ds i xs) = length xs"
  by (induction ds i xs rule: shuffle_with.induct) (simp_all add: swap_def)

lemma swap_append:
  "i < length zs \<Longrightarrow> j < length zs \<Longrightarrow> swap i j (zs @ w) = swap i j zs @ w"
  by (simp add: swap_def list_update_append nth_append)

lemma shuffle_with_append:
  "ds \<in> set (all_draws i) \<Longrightarrow> i < length zs \<Longrightarrow>
   shuffle_with ds i (zs @ w) = shuffle_with ds i zs @ w"
proof (induction i arbitrary: ds zs)
  case 0
  show ?case by simp
next
  case (Suc i)
  from Suc.prems(1) obtain j ds' where ds: "ds = j # ds'" "j \<le> Suc i" "ds' \<in> set (all_draws i)"
    unfolding in_all_draws_Suc by blast
  have "swap (Suc i) j (zs @ w) = swap (Suc i) j zs @ w"
    using Suc.prems(2) ds(2) by (intro swap_append) simp_all
  moreover have "shuffle_with ds' i (swap (Suc i) j zs @ w) = shuffle_with ds' i (swap (Suc i) j zs) @ w"
    using ds(3) Suc.prems(2) by (intro Suc.IH) (simp_all add: swap_def)
  ultimately show ?case by (simp add: ds(1))
qed

lemma swap_last:
  assumes "length xs = Suc (Suc i)" and "j \<le> Suc i"
  shows "swap (Suc i) j xs = butlast (swap (Suc i) j xs) @ [xs ! j]"
proof -
  have ne: "swap (Suc i) j xs \<noteq> []" using assms(1) by (auto simp: swap_def)
  have "last (swap (Suc i) j xs) = swap (Suc i) j xs ! Suc i"
    using assms(1) ne by (simp add: last_conv_nth swap_def)
  also have "\<dots> = xs ! j"
    using assms by (auto simp: swap_def nth_list_update)
  finally show ?thesis using ne by (metis append_butlast_last_id)
qed

lemma shuffle_with_last:
  assumes "length xs = Suc (Suc i)" and "j \<le> Suc i" and "ds \<in> set (all_draws i)"
  shows "shuffle_with (j # ds) (Suc i) xs
     = shuffle_with ds i (butlast (swap (Suc i) j xs)) @ [xs ! j]"
proof -
  have "shuffle_with (j # ds) (Suc i) xs
      = shuffle_with ds i (butlast (swap (Suc i) j xs) @ [xs ! j])"
    using swap_last [OF assms(1,2)] by simp
  also have "\<dots> = shuffle_with ds i (butlast (swap (Suc i) j xs)) @ [xs ! j]"
    using assms(3) by (rule shuffle_with_append) (simp add: assms(1) swap_def)
  finally show ?thesis .
qed

lemma shuffle_with_unique:
  "distinct xs \<Longrightarrow> length xs = Suc i \<Longrightarrow> mset ys = mset xs \<Longrightarrow>
   \<exists>!ds. ds \<in> set (all_draws i) \<and> shuffle_with ds i xs = ys"
proof (induction i arbitrary: xs ys)
  case 0
  then obtain x where xs: "xs = [x]" by (cases xs) auto
  then have "ys = [x]" using "0.prems"(3) by simp
  then show ?case using xs by auto
next
  case (Suc i)
  have len_ys: "length ys = Suc (Suc i)"
    using Suc.prems(2,3) by (metis mset_eq_length)
  then have ys_ne: "ys \<noteq> []" by auto
  then have ys: "ys = butlast ys @ [last ys]" by simp
  have "last ys \<in> set xs"
    using ys_ne Suc.prems(3) by (metis last_in_set mset_eq_setD)
  then obtain j where j: "j < length xs" "xs ! j = last ys"
    by (auto simp: in_set_conv_nth)
  then have j_le: "j \<le> Suc i" using Suc.prems(2) by simp
  define X where "X = butlast (swap (Suc i) j xs)"
  have sw: "swap (Suc i) j xs = X @ [xs ! j]"
    unfolding X_def using Suc.prems(2) j_le by (rule swap_last)
  have msw: "mset (swap (Suc i) j xs) = mset xs"
    using Suc.prems(2) j(1) by (intro mset_swap_shuffled) simp_all
  have "mset X + {#xs ! j#} = mset (butlast ys) + {#last ys#}"
    using msw sw ys Suc.prems(3) by (metis mset.simps(1) mset.simps(2) mset_append add_mset_add_single union_mset_add_mset_right)
  then have mX: "mset (butlast ys) = mset X" using j(2) by simp
  have "distinct (swap (Suc i) j xs)"
    using msw Suc.prems(1) by (metis mset_eq_imp_distinct_iff)
  then have dX: "distinct X" unfolding X_def by (rule distinct_butlast)
  have lX: "length X = Suc i"
    unfolding X_def using Suc.prems(2) by (simp add: swap_def)
  from Suc.IH [OF dX lX mX]
  obtain ds' where ds': "ds' \<in> set (all_draws i)" "shuffle_with ds' i X = butlast ys"
    and uniq: "\<And>es. es \<in> set (all_draws i) \<Longrightarrow> shuffle_with es i X = butlast ys \<Longrightarrow> es = ds'"
    by blast
  show ?case
  proof (rule ex1I [of _ "j # ds'"])
    have "shuffle_with (j # ds') (Suc i) xs = shuffle_with ds' i X @ [xs ! j]"
      unfolding X_def using Suc.prems(2) j_le ds'(1) by (rule shuffle_with_last)
    then have "shuffle_with (j # ds') (Suc i) xs = ys"
      using ds'(2) j(2) ys by simp
    moreover have "j # ds' \<in> set (all_draws (Suc i))"
      unfolding in_all_draws_Suc using j_le ds'(1) by blast
    ultimately show "j # ds' \<in> set (all_draws (Suc i)) \<and> shuffle_with (j # ds') (Suc i) xs = ys"
      by simp
  next
    fix es
    assume es: "es \<in> set (all_draws (Suc i)) \<and> shuffle_with es (Suc i) xs = ys"
    then obtain j2 es2 where e: "es = j2 # es2" "j2 \<le> Suc i" "es2 \<in> set (all_draws i)"
      unfolding in_all_draws_Suc by blast
    have "shuffle_with (j2 # es2) (Suc i) xs
        = shuffle_with es2 i (butlast (swap (Suc i) j2 xs)) @ [xs ! j2]"
      using Suc.prems(2) e(2,3) by (rule shuffle_with_last)
    then have eq: "shuffle_with es2 i (butlast (swap (Suc i) j2 xs)) @ [xs ! j2]
        = butlast ys @ [last ys]"
      using es e(1) ys by simp
    then have "xs ! j2 = last ys" by simp
    then have "xs ! j2 = xs ! j" using j(2) by simp
    moreover have "j2 < length xs" using e(2) Suc.prems(2) by simp
    ultimately have j2: "j2 = j"
      using Suc.prems(1) j(1) by (simp add: nth_eq_iff_index_eq)
    have "shuffle_with es2 i X = butlast ys"
      using eq unfolding X_def j2 by simp
    then have "es2 = ds'" using e(3) by (intro uniq)
    then show "es = j # ds'" using e(1) j2 by simp
  qed
qed

lemma count_unique:
  assumes "distinct zs" and "\<exists>!x. x \<in> set zs \<and> P x"
  shows "length (filter P zs) = 1"
proof -
  from assms(2) obtain a where a: "a \<in> set zs" "P a"
    and uniq: "\<And>x. x \<in> set zs \<Longrightarrow> P x \<Longrightarrow> x = a" by blast
  have "{x. P x} \<inter> set zs = {a}" using a uniq by blast
  then show ?thesis using assms(1) by (simp add: distinct_length_filter)
qed

lemma swap_map:
  "i < length zs \<Longrightarrow> j < length zs \<Longrightarrow> swap i j (map f zs) = map f (swap i j zs)"
  by (simp add: swap_def map_update)

lemma shuffle_with_map:
  "ds \<in> set (all_draws i) \<Longrightarrow> i < length zs \<Longrightarrow>
   shuffle_with ds i (map f zs) = map f (shuffle_with ds i zs)"
proof (induction i arbitrary: ds zs)
  case 0
  show ?case by simp
next
  case (Suc i)
  from Suc.prems(1) obtain j ds' where ds: "ds = j # ds'" "j \<le> Suc i" "ds' \<in> set (all_draws i)"
    unfolding in_all_draws_Suc by blast
  have "swap (Suc i) j (map f zs) = map f (swap (Suc i) j zs)"
    using Suc.prems(2) ds(2) by (intro swap_map) simp_all
  moreover have "shuffle_with ds' i (map f (swap (Suc i) j zs))
      = map f (shuffle_with ds' i (swap (Suc i) j zs))"
    using ds(3) Suc.prems(2) by (intro Suc.IH) (simp_all add: swap_def)
  ultimately show ?case by (simp add: ds(1))
qed

lemma shuffle_with_positions:
  assumes "ds \<in> set (all_draws (length xs - 1))"
  shows "shuffle_with ds (length xs - 1) xs
     = map ((!) xs) (shuffle_with ds (length xs - 1) [0..<length xs])"
proof (cases xs)
  case Nil
  then show ?thesis by simp
next
  case (Cons x xs')
  have "shuffle_with ds (length xs - 1) (map ((!) xs) [0..<length xs])
      = map ((!) xs) (shuffle_with ds (length xs - 1) [0..<length xs])"
    using assms by (rule shuffle_with_map) (simp add: Cons)
  then show ?thesis by (simp add: map_nth)
qed

lemma shuffleArray_draws:
  "fst (shuffleArray rand k xs) = shuffle_with (draws rand k (length xs - 1)) (length xs - 1) xs"
  by (simp add: shuffleArray_def shuffle_loop_draws)

lemma count_draws_for_permutation:
  assumes "mset p = mset [0..<n]"
  shows "length (filter (\<lambda>ds. shuffle_with ds (n - 1) [0..<n] = p) (all_draws (n - 1))) = 1"
proof (cases n)
  case 0
  then show ?thesis using assms by simp
next
  case (Suc i)
  have "\<exists>!ds. ds \<in> set (all_draws i) \<and> shuffle_with ds i [0..<n] = p"
    using assms by (intro shuffle_with_unique) (simp_all add: Suc)
  then show ?thesis
    using distinct_all_draws [of i] by (simp add: Suc count_unique del: upt_Suc)
qed

text \<open>
  Claim C7. The options of a processed question are the shuffle of the decoded correct answer
  followed by the decoded incorrect answers in their order. The shuffle is the Fisher-Yates
  loop run with the indices that the random source draws; with a random source as
  \<open>Math.random\<close> provides it the result is a permutation of the input, namely the input
  rearranged by the permutation of the positions that the draws determine. For a list of
  length \<open>n\<close> there are \<open>n!\<close> lists of draws, all different, and every permutation of the \<open>n\<close>
  positions is the result of exactly one of them: when the draws are uniform and independent,
  so that each list of draws has the probability \<open>1 / n!\<close>, every permutation has the
  probability \<open>1 / n!\<close>.
\<close>

theorem shuffle_options_uniform:
  "ProcessedQuestion.options (fst (process_question rand k index q))
     = fst (shuffleArray rand k
         (decodeHtmlEntities (QuizQuestion.correct_answer q)
            # map decodeHtmlEntities (QuizQuestion.incorrect_answers q)))
   \<and> fst (shuffleArray rand k xs)
       = shuffle_with (draws rand k (length xs - 1)) (length xs - 1) xs
   \<and> (random_source rand \<longrightarrow>
         mset (fst (shuffleArray rand k xs)) = mset xs
       \<and> draws rand k (length xs - 1) \<in> set (all_draws (length xs - 1))
       \<and> fst (shuffleArray rand k xs)
           = map ((!) xs) (shuffle_with (draws rand k (length xs - 1)) (length xs - 1) [0..<length xs]))
   \<and> length (all_draws (length xs - 1)) = fact (length xs)
   \<and> distinct (all_draws (length xs - 1))
   \<and> (\<forall>p. mset p = mset [0..<length xs] \<longrightarrow>
         length (filter (\<lambda>ds. shuffle_with ds (length xs - 1) [0..<length xs] = p)
                   (all_draws (length xs - 1))) = 1)"
proof -
  have opts: "ProcessedQuestion.options (fst (process_question rand k index q))
     = fst (shuffleArray rand k
         (decodeHtmlEntities (QuizQuestion.correct_answer q)
            # map decodeHtmlEntities (QuizQuestion.incorrect_answers q)))"
    by (simp add: fst_process_question)
  have rnd: "mset (fst (shuffleArray rand k xs)) = mset xs
       \<and> draws rand k (length xs - 1) \<in> set (all_draws (length xs - 1))
       \<and> fst (shuffleArray rand k xs)
           = map ((!) xs) (shuffle_with (draws rand k (length xs - 1)) (length xs - 1) [0..<length xs])"
    if r: "random_source rand"
  proof -
    have v: "draws rand k (length xs - 1) \<in> set (all_draws (length xs - 1))"
      using r by (rule draws_valid)
    show ?thesis
      using mset_shuffleArray [OF r, of k xs] v shuffle_with_positions [OF v]
      by (simp add: shuffleArray_draws)
  qed
  have len: "length (all_draws (length xs - 1)) = fact (length xs)"
    by (cases xs) (simp_all add: length_all_draws del: all_draws.simps)
  show ?thesis
    using opts shuffleArray_draws [of rand k xs] rnd len distinct_all_draws [of "length xs - 1"]
      count_draws_for_permutation [of _ "length xs"]
    by blast
qed

text \<open>The theorem for claim C7 at a list of three options and one of the six permutations.\<close>

theorem shuffle_options_uniform_witness:
  "random_source rand_zero
   \<and> mset (fst (shuffleArray rand_zero 0 [js ''A'', js ''B'', js ''C'']))
       = mset [js ''A'', js ''B'', js ''C'']
   \<and> mset [1, 2, 0] = mset [0..<length [js ''A'', js ''B'', js ''C'']]
   \<and> length (filter (\<lambda>ds. shuffle_with ds (length [js ''A'', js ''B'', js ''C''] - 1)
                            [0..<length [js ''A'', js ''B'', js ''C'']] = [1, 2, 0])
               (all_draws (length [js ''A'', js ''B'', js ''C''] - 1))) = 1"
proof -
  have r: "random_source rand_zero"
    by (simp add: random_source_def rand_zero_def)
  have p: "mset [1, 2, 0] = mset [0..<length [js ''A'', js ''B'', js ''C'']]"
    by (simp add: upt_rec)
  show ?thesis
    using r p shuffle_options_uniform [of rand_zero 0 0 repeated_answer_question
        "[js ''A'', js ''B'', js ''C'']"]
    by blast
qed

end
